theory Spec2Isabelle
  imports Main "HOL-Library.Multiset" "HOL-Library.AList"
begin

section \<open>Heartbeat monitor: data model\<close>

text \<open>
  The TypeScript interfaces of \<^verbatim>\<open>types.ts\<close>. A JavaScript \<^verbatim>\<open>number\<close> of the
  configuration is modelled as an \<^typ>\<open>int\<close> (whole seconds, whole misses), a valid
  \<^verbatim>\<open>Date\<close> as its time value, the integer number of milliseconds since the epoch that
  \<^verbatim>\<open>getTime()\<close> returns, and a JavaScript string as a \<^typ>\<open>string\<close>.
\<close>

record Config =
  expected_interval_seconds :: int
  allowed_misses :: int

record ParsedHeartbeat =
  service :: string
  timestamp :: int

record Alert =
  service :: string
  alert_at :: string

record ValidationResult =
  valid :: "ParsedHeartbeat list"
  invalid :: nat

text \<open>The only exception the analysed code can raise: \<^verbatim>\<open>toISOString\<close> on an invalid date.\<close>

datatype js_error = RangeError

section \<open>The platform: time values and \<^verbatim>\<open>Date.prototype.toISOString\<close>\<close>

text \<open>
  ECMA-262, section "Date Objects". A time value is valid when its magnitude is at most
  \<open>8.64 \<times> 10\<^sup>1\<^sup>5\<close> milliseconds; \<^verbatim>\<open>new Date(n)\<close> clips every other number to the
  invalid date, here \<open>None\<close>.
\<close>

definition maxTime :: int where
  "maxTime = 8640000000000000"

definition valid_time :: "int \<Rightarrow> bool" where
  "valid_time t \<longleftrightarrow> - maxTime \<le> t \<and> t \<le> maxTime"

definition TimeClip :: "int \<Rightarrow> int option" where
  "TimeClip t = (if valid_time t then Some t else None)"

definition msPerDay :: int where
  "msPerDay = 86400000"

definition Day :: "int \<Rightarrow> int" where
  "Day t = t div msPerDay"

definition DayFromYear :: "int \<Rightarrow> int" where
  "DayFromYear y =
     365 * (y - 1970) + (y - 1969) div 4 - (y - 1901) div 100 + (y - 1601) div 400"

definition DaysInYear :: "int \<Rightarrow> int" where
  "DaysInYear y =
     (if y mod 4 \<noteq> 0 then 365
      else if y mod 100 \<noteq> 0 then 366
      else if y mod 400 \<noteq> 0 then 365
      else 366)"

text \<open>
  ECMA-262 defines \<^verbatim>\<open>YearFromTime(t)\<close> as the largest year whose first day is not after
  \<open>t\<close>. It is computed here from an estimate that is off by at most one year; lemma
  \<open>YearFromTime_largest\<close> below shows that the result is the year of the definition.
\<close>

definition YearFromTime :: "int \<Rightarrow> int" where
  "YearFromTime t =
     (let d = Day t; y = 1970 + (400 * d) div 146097
      in if DayFromYear (y + 1) \<le> d then y + 1
         else if DayFromYear y \<le> d then y
         else y - 1)"

definition InLeapYear :: "int \<Rightarrow> int" where
  "InLeapYear t = (if DaysInYear (YearFromTime t) = 366 then 1 else 0)"

definition DayWithinYear :: "int \<Rightarrow> int" where
  "DayWithinYear t = Day t - DayFromYear (YearFromTime t)"

definition MonthFromTime :: "int \<Rightarrow> int" where
  "MonthFromTime t =
     (let d = DayWithinYear t; l = InLeapYear t
      in if d < 31 then 0
         else if d < 59 + l then 1
         else if d < 90 + l then 2
         else if d < 120 + l then 3
         else if d < 151 + l then 4
         else if d < 181 + l then 5
         else if d < 212 + l then 6
         else if d < 243 + l then 7
         else if d < 273 + l then 8
         else if d < 304 + l then 9
         else if d < 334 + l then 10
         else 11)"

definition DateFromTime :: "int \<Rightarrow> int" where
  "DateFromTime t =
     (let d = DayWithinYear t; l = InLeapYear t; m = MonthFromTime t
      in if m = 0 then d + 1
         else if m = 1 then d - 30
         else if m = 2 then d - 58 - l
         else if m = 3 then d - 89 - l
         else if m = 4 then d - 119 - l
         else if m = 5 then d - 150 - l
         else if m = 6 then d - 180 - l
         else if m = 7 then d - 211 - l
         else if m = 8 then d - 242 - l
         else if m = 9 then d - 272 - l
         else if m = 10 then d - 303 - l
         else d - 333 - l)"

definition HourFromTime :: "int \<Rightarrow> int" where
  "HourFromTime t = (t div 3600000) mod 24"

definition MinFromTime :: "int \<Rightarrow> int" where
  "MinFromTime t = (t div 60000) mod 60"

definition SecFromTime :: "int \<Rightarrow> int" where
  "SecFromTime t = (t div 1000) mod 60"

definition msFromTime :: "int \<Rightarrow> int" where
  "msFromTime t = t mod 1000"

text \<open>Decimal digits, and \<^verbatim>\<open>ToZeroPaddedDecimalString(n, minLength)\<close>.\<close>

definition digit_char :: "nat \<Rightarrow> char" where
  "digit_char d = char_of (48 + d)"

fun decimal :: "nat \<Rightarrow> string" where
  "decimal n = (if n < 10 then [digit_char n] else decimal (n div 10) @ [digit_char (n mod 10)])"

definition ToZeroPaddedDecimalString :: "int \<Rightarrow> nat \<Rightarrow> string" where
  "ToZeroPaddedDecimalString n minLength =
     (let s = decimal (nat n) in replicate (minLength - length s) (CHR ''0'') @ s)"


text \<open>
  The year of the Date Time String Format: four digits for the years 0 to 9999, a sign
  and six digits for every other year.
\<close>

definition year_string :: "int \<Rightarrow> string" where
  "year_string y =
     (if 0 \<le> y \<and> y \<le> 9999 then ToZeroPaddedDecimalString y 4
      else if y < 0 then ''-'' @ ToZeroPaddedDecimalString (- y) 6
      else ''+'' @ ToZeroPaddedDecimalString y 6)"

definition iso_string :: "int \<Rightarrow> string" where
  "iso_string t =
     year_string (YearFromTime t) @ ''-'' @
     ToZeroPaddedDecimalString (MonthFromTime t + 1) 2 @ ''-'' @
     ToZeroPaddedDecimalString (DateFromTime t) 2 @ ''T'' @
     ToZeroPaddedDecimalString (HourFromTime t) 2 @ '':'' @
     ToZeroPaddedDecimalString (MinFromTime t) 2 @ '':'' @
     ToZeroPaddedDecimalString (SecFromTime t) 2 @ ''.'' @
     ToZeroPaddedDecimalString (msFromTime t) 3 @ ''Z''"

text \<open>
  \<^verbatim>\<open>toISOString\<close> of a date, the date being \<open>None\<close> when invalid: it throws a
  \<^verbatim>\<open>RangeError\<close> on the invalid date.
\<close>

definition toISOString :: "int option \<Rightarrow> js_error + string" where
  "toISOString d = (case d of None \<Rightarrow> Inl RangeError | Some t \<Rightarrow> Inr (iso_string t))"

section \<open>The gap detector (\<^verbatim>\<open>analyzer.ts\<close>)\<close>

definition thresholdMs :: "Config \<Rightarrow> int" where
  "thresholdMs config = expected_interval_seconds config * (allowed_misses config + 1) * 1000"

text \<open>
  The \<^verbatim>\<open>for\<close> loop of \<^verbatim>\<open>analyseServiceHeartbeats\<close> over the consecutive pairs of
  \<^verbatim>\<open>sorted\<close>: the argument is the part of the array from index \<open>i\<close> on. The guard
  \<^verbatim>\<open>!current || !next\<close> of the source never holds, both being records of the array.
\<close>

fun gap_loop :: "Config \<Rightarrow> ParsedHeartbeat list \<Rightarrow> js_error + Alert option" where
  "gap_loop config (current # next # rest) =
     (let gapMs = timestamp next - timestamp current
      in if gapMs \<ge> thresholdMs config then
           (let alertTimestamp =
                  TimeClip (timestamp current + expected_interval_seconds config * 1000)
            in case toISOString alertTimestamp of
                 Inl e \<Rightarrow> Inl e
               | Inr s \<Rightarrow>
                   Inr (Some \<lparr>Alert.service = ParsedHeartbeat.service current, alert_at = s\<rparr>))
         else gap_loop config (next # rest))"
| "gap_loop config rest = Inr None"

text \<open>
  \<^verbatim>\<open>Array.prototype.sort\<close> is stable, and so is \<^const>\<open>sort_key\<close>: records with equal
  timestamps keep their relative order.
\<close>

definition analyseServiceHeartbeats ::
  "ParsedHeartbeat list \<Rightarrow> Config \<Rightarrow> js_error + Alert option" where
  "analyseServiceHeartbeats heartbeats config =
     (if length heartbeats < 2 then Inr None
      else gap_loop config (sort_key timestamp heartbeats))"

text \<open>
  \<^verbatim>\<open>groupHeartbeatsByService\<close>. A JavaScript \<^verbatim>\<open>Map\<close> iterates in the order in which its
  keys were first set, and setting a key that is present keeps its place: an association
  list with \<^const>\<open>map_of\<close> for \<^verbatim>\<open>get\<close> and \<^const>\<open>AList.update\<close> for \<^verbatim>\<open>set\<close>. Keys are
  compared as strings.
\<close>

definition group_step ::
  "(string \<times> ParsedHeartbeat list) list \<Rightarrow> ParsedHeartbeat \<Rightarrow>
   (string \<times> ParsedHeartbeat list) list" where
  "group_step grouped heartbeat =
     (let existing =
            (case map_of grouped (ParsedHeartbeat.service heartbeat) of
               Some hs \<Rightarrow> hs
             | None \<Rightarrow> [])
      in AList.update (ParsedHeartbeat.service heartbeat) (existing @ [heartbeat]) grouped)"

definition groupHeartbeatsByService ::
  "ParsedHeartbeat list \<Rightarrow> (string \<times> ParsedHeartbeat list) list" where
  "groupHeartbeatsByService heartbeats = foldl group_step [] heartbeats"

text \<open>
  The loop of \<^verbatim>\<open>analyseAllHeartbeats\<close> over the entries of the map, with the array
  \<^verbatim>\<open>alerts\<close> as accumulator. An exception of \<^verbatim>\<open>analyseServiceHeartbeats\<close> ends it.
\<close>

fun alerts_loop ::
  "Config \<Rightarrow> (string \<times> ParsedHeartbeat list) list \<Rightarrow> Alert list \<Rightarrow> js_error + Alert list" where
  "alerts_loop config [] alerts = Inr alerts"
| "alerts_loop config ((key, serviceHeartbeats) # rest) alerts =
     (case analyseServiceHeartbeats serviceHeartbeats config of
        Inl e \<Rightarrow> Inl e
      | Inr None \<Rightarrow> alerts_loop config rest alerts
      | Inr (Some alert) \<Rightarrow> alerts_loop config rest (alerts @ [alert]))"

definition analyseAllHeartbeats :: "ParsedHeartbeat list \<Rightarrow> Config \<Rightarrow> js_error + Alert list" where
  "analyseAllHeartbeats heartbeats config =
     alerts_loop config (groupHeartbeatsByService heartbeats) []"

section \<open>The validator (\<^verbatim>\<open>validator.ts\<close>)\<close>

text \<open>
  The raw events are of type \<^verbatim>\<open>unknown\<close>: the values that \<^verbatim>\<open>JSON.parse\<close> produces, and
  \<^verbatim>\<open>undefined\<close>. An object is the list of its own properties.
\<close>

datatype js_value =
    JUndefined
  | JNull
  | JBoolean bool
  | JNumber int
  | JString string
  | JArray "js_value list"
  | JObject "(string \<times> js_value) list"

text \<open>\<^verbatim>\<open>typeof v == "object"\<close>: true of objects, arrays and \<^verbatim>\<open>null\<close>.\<close>

fun typeof_object :: "js_value \<Rightarrow> bool" where
  "typeof_object JNull = True"
| "typeof_object (JArray _) = True"
| "typeof_object (JObject _) = True"
| "typeof_object _ = False"

text \<open>
  \<^verbatim>\<open>key in v\<close> for a name that is neither an array index nor a property of a prototype
  (\<^verbatim>\<open>service\<close>, \<^verbatim>\<open>timestamp\<close>), and the property read \<^verbatim>\<open>v.key\<close>, \<^verbatim>\<open>undefined\<close> when
  the property is absent.
\<close>

fun has_property :: "string \<Rightarrow> js_value \<Rightarrow> bool" where
  "has_property k (JObject props) = (map_of props k \<noteq> None)"
| "has_property k _ = False"

fun get_property :: "js_value \<Rightarrow> string \<Rightarrow> js_value" where
  "get_property (JObject props) k = (case map_of props k of Some v \<Rightarrow> v | None \<Rightarrow> JUndefined)"
| "get_property _ k = JUndefined"

text \<open>
  \<^verbatim>\<open>String.prototype.trim\<close> removes the white space and line terminators at both ends;
  among the characters of \<^typ>\<open>char\<close> these are TAB, LF, VT, FF, CR, SP and NBSP.
\<close>

definition is_whitespace :: "char \<Rightarrow> bool" where
  "is_whitespace c \<longleftrightarrow> (of_char c :: nat) \<in> {9, 10, 11, 12, 13, 32, 160}"

definition trim :: "string \<Rightarrow> string" where
  "trim s = rev (dropWhile is_whitespace (rev (dropWhile is_whitespace s)))"

definition hasRequiredFields :: "js_value \<Rightarrow> bool" where
  "hasRequiredFields event \<longleftrightarrow>
     typeof_object event \<and> event \<noteq> JNull \<and>
     has_property ''service'' event \<and> has_property ''timestamp'' event"

fun isValidService :: "js_value \<Rightarrow> bool" where
  "isValidService (JString s) = (length (trim s) > 0)"
| "isValidService _ = False"

text \<open>
  \<^verbatim>\<open>new Date(s)\<close> of a string parses it as \<^verbatim>\<open>Date.parse\<close> does and clips the result.
  The accepted formats beyond the Date Time String Format are left to the implementation
  by ECMA-262, so the parser is a parameter \<open>date_parse\<close>, \<open>None\<close> being \<^verbatim>\<open>NaN\<close>.
\<close>

definition new_Date :: "(string \<Rightarrow> int option) \<Rightarrow> string \<Rightarrow> int option" where
  "new_Date date_parse s = (case date_parse s of None \<Rightarrow> None | Some tv \<Rightarrow> TimeClip tv)"

fun parseTimestamp :: "(string \<Rightarrow> int option) \<Rightarrow> js_value \<Rightarrow> int option" where
  "parseTimestamp date_parse (JString s) = new_Date date_parse s"
| "parseTimestamp date_parse _ = None"

definition parseEvent :: "(string \<Rightarrow> int option) \<Rightarrow> js_value \<Rightarrow> ParsedHeartbeat option" where
  "parseEvent date_parse event =
     (if \<not> hasRequiredFields event then None
      else if \<not> isValidService (get_property event ''service'') then None
      else case parseTimestamp date_parse (get_property event ''timestamp'') of
             None \<Rightarrow> None
           | Some ts \<Rightarrow>
               (case get_property event ''service'' of
                  JString s \<Rightarrow> Some \<lparr>ParsedHeartbeat.service = trim s, timestamp = ts\<rparr>
                | _ \<Rightarrow> None))"

text \<open>The loop of \<^verbatim>\<open>validateAndParseEvents\<close>, on the pair of \<^verbatim>\<open>valid\<close> and \<^verbatim>\<open>invalid\<close>.\<close>

fun validate_loop ::
  "(string \<Rightarrow> int option) \<Rightarrow> js_value list \<Rightarrow> ValidationResult \<Rightarrow> ValidationResult" where
  "validate_loop date_parse [] acc = acc"
| "validate_loop date_parse (event # events) acc =
     (case parseEvent date_parse event of
        Some parsed \<Rightarrow> validate_loop date_parse events (acc\<lparr>valid := valid acc @ [parsed]\<rparr>)
      | None \<Rightarrow> validate_loop date_parse events (acc\<lparr>invalid := invalid acc + 1\<rparr>))"

definition validateAndParseEvents ::
  "(string \<Rightarrow> int option) \<Rightarrow> js_value list \<Rightarrow> ValidationResult" where
  "validateAndParseEvents date_parse events =
     validate_loop date_parse events \<lparr>valid = [], invalid = 0\<rparr>"

section \<open>The entry point (\<^verbatim>\<open>main.ts\<close>)\<close>


section \<open>Properties of the calendar and of the ISO rendering\<close>

declare decimal.simps [simp del]

lemma div_lower: "0 < n \<Longrightarrow> n * ((x::int) div n) \<le> x"
proof -
  assume "0 < n"
  then have "0 \<le> x mod n" by simp
  moreover have "x = n * (x div n) + x mod n" by simp
  ultimately show ?thesis by linarith
qed

lemma div_upper: "0 < n \<Longrightarrow> (x::int) < n * (x div n) + n"
proof -
  assume "0 < n"
  then have "x mod n < n" by simp
  moreover have "x = n * (x div n) + x mod n" by simp
  ultimately show ?thesis by linarith
qed

lemma mod_400_100: "(y::int) mod 400 = 0 \<Longrightarrow> y mod 100 = 0"
proof -
  assume "y mod 400 = 0"
  then have "400 dvd y" by (simp add: mod_eq_0_iff_dvd)
  moreover have "(100::int) dvd 400" by simp
  ultimately have "100 dvd y" using dvd_trans by blast
  then show ?thesis by (simp add: mod_eq_0_iff_dvd)
qed

lemma mod_100_4: "(y::int) mod 100 = 0 \<Longrightarrow> y mod 4 = 0"
proof -
  assume "y mod 100 = 0"
  then have "100 dvd y" by (simp add: mod_eq_0_iff_dvd)
  moreover have "(4::int) dvd 100" by simp
  ultimately have "4 dvd y" using dvd_trans by blast
  then show ?thesis by (simp add: mod_eq_0_iff_dvd)
qed


lemma div_step:
  fixes x :: int
  assumes "1 < n"
  shows "(x + 1) div n = x div n + (if (x + 1) mod n = 0 then 1 else 0)"
proof -
  have r: "0 \<le> x mod n" "x mod n < n" using assms by simp_all
  have d: "(x + 1) div n = x div n + (x mod n + 1) div n"
    using assms by (simp add: div_add1_eq[of x 1 n])
  have m: "(x + 1) mod n = (x mod n + 1) mod n"
    by (simp add: mod_add_left_eq)
  show ?thesis
  proof (cases "x mod n + 1 = n")
    case True
    then show ?thesis using d m assms by simp
  next
    case False
    with r have "x mod n + 1 < n" by simp
    then have "(x mod n + 1) div n = 0" "(x mod n + 1) mod n = x mod n + 1"
      using r by simp_all
    then show ?thesis using d m r by simp
  qed
qed

lemma DayFromYear_step: "DayFromYear (y + 1) = DayFromYear y + DaysInYear y"
proof -
  have a: "(y + 1 - 1969) div 4 = (y - 1969) div 4 + (if y mod 4 = 0 then 1 else 0)"
  proof -
    have "(y - 1968) mod 4 = y mod 4" using mod_mult_self1[of y "-492" 4] by simp
    then show ?thesis using div_step[of 4 "y - 1969"] by (simp add: algebra_simps)
  qed
  have b: "(y + 1 - 1901) div 100 = (y - 1901) div 100 + (if y mod 100 = 0 then 1 else 0)"
  proof -
    have "(y - 1900) mod 100 = y mod 100" using mod_mult_self1[of y "-19" 100] by simp
    then show ?thesis using div_step[of 100 "y - 1901"] by (simp add: algebra_simps)
  qed
  have c: "(y + 1 - 1601) div 400 = (y - 1601) div 400 + (if y mod 400 = 0 then 1 else 0)"
  proof -
    have "(y - 1600) mod 400 = y mod 400" using mod_mult_self1[of y "-4" 400] by simp
    then show ?thesis using div_step[of 400 "y - 1601"] by (simp add: algebra_simps)
  qed
  have "DayFromYear (y + 1) - DayFromYear y =
     365 + ((y + 1 - 1969) div 4 - (y - 1969) div 4)
         - ((y + 1 - 1901) div 100 - (y - 1901) div 100)
         + ((y + 1 - 1601) div 400 - (y - 1601) div 400)"
    by (simp add: DayFromYear_def)
  also have "\<dots> = DaysInYear y"
    unfolding a b c DaysInYear_def using mod_400_100[of y] mod_100_4[of y] by auto
  finally show ?thesis by simp
qed


lemma DayFromYear_lower:
  fixes q d :: int
  assumes d: "146097 * q \<le> 400 * d"
  shows "DayFromYear (1969 + q) \<le> d"
proof -
  define a where "a = q div 4"
  define b where "b = (q + 68) div 100"
  define c where "c = (q + 368) div 400"
  define D where "D = DayFromYear (1969 + q)"
  have a: "4 * a \<le> q" unfolding a_def by (rule div_lower) simp
  have b: "q + 68 < 100 * b + 100" unfolding b_def by (rule div_upper) simp
  have c: "400 * c \<le> q + 368" unfolding c_def by (rule div_lower) simp
  have "D = 365 * (q - 1) + a - b + c"
    by (simp add: D_def DayFromYear_def a_def b_def c_def add.commute)
  then have 1: "400 * D = 146000 * q - 146000 + 400 * a - 400 * b + 400 * c"
    by simp
  have 2: "400 * a \<le> 100 * q" using a by simp
  have 3: "4 * q < 400 * b + 128" using b by simp
  have "400 * D \<le> 146097 * q" using 1 2 3 c by simp
  then have "400 * D \<le> 400 * d" using d by simp
  then show ?thesis unfolding D_def by simp
qed

lemma DayFromYear_upper:
  fixes q d :: int
  assumes d: "400 * d < 146097 * q + 146097"
  shows "d < DayFromYear (1972 + q)"
proof -
  define a where "a = (q + 3) div 4"
  define b where "b = (q + 71) div 100"
  define c where "c = (q + 371) div 400"
  define D where "D = DayFromYear (1972 + q)"
  have a: "q + 3 < 4 * a + 4" unfolding a_def by (rule div_upper) simp
  have b: "100 * b \<le> q + 71" unfolding b_def by (rule div_lower) simp
  have c: "q + 371 < 400 * c + 400" unfolding c_def by (rule div_upper) simp
  have "D = 365 * (q + 2) + a - b + c"
    by (simp add: D_def DayFromYear_def a_def b_def c_def add.commute)
  then have 1: "400 * D = 146000 * q + 292000 + 400 * a - 400 * b + 400 * c"
    by simp
  have 2: "100 * q < 400 * a + 100" using a by simp
  have 3: "400 * b \<le> 4 * q + 284" using b by simp
  have "146097 * q + 146097 \<le> 400 * D" using 1 2 3 c by simp
  then have "400 * d < 400 * D" using d by simp
  then show ?thesis unfolding D_def by simp
qed

lemma YearFromTime_spec:
  "DayFromYear (YearFromTime t) \<le> Day t \<and> Day t < DayFromYear (YearFromTime t + 1)"
proof -
  define d where "d = Day t"
  define q where "q = (400 * d) div 146097"
  have q1: "146097 * q \<le> 400 * d" unfolding q_def by (rule div_lower) simp
  have q2: "400 * d < 146097 * q + 146097" unfolding q_def by (rule div_upper) simp
  have e1: "1970 + q - 1 = 1969 + q" and e2: "1970 + q + 1 + 1 = 1972 + q" by simp_all
  have lo: "DayFromYear (1970 + q - 1) \<le> d"
    unfolding e1 using q1 by (rule DayFromYear_lower)
  have hi: "d < DayFromYear (1970 + q + 1 + 1)"
    unfolding e2 using q2 by (rule DayFromYear_upper)
  have y: "YearFromTime t =
     (if DayFromYear (1970 + q + 1) \<le> d then 1970 + q + 1
      else if DayFromYear (1970 + q) \<le> d then 1970 + q
      else 1970 + q - 1)"
    by (simp add: YearFromTime_def Let_def d_def q_def)
  show ?thesis
    unfolding y d_def[symmetric] using lo hi by (auto simp del: One_nat_def)
qed


lemma DaysInYear_cases: "DaysInYear y = 365 \<or> DaysInYear y = 366"
  by (simp add: DaysInYear_def)

lemma DayFromYear_mono: "y \<le> z \<Longrightarrow> DayFromYear y \<le> DayFromYear z"
proof (induction z rule: int_ge_induct)
  case base
  show ?case by simp
next
  case (step i)
  have "DayFromYear i \<le> DayFromYear (i + 1)"
    using DayFromYear_step[of i] DaysInYear_cases[of i] by auto
  with step show ?case by simp
qed

text \<open>The year computed is the one ECMA-262 defines: the largest whose first day is not after \<open>t\<close>.\<close>

lemma YearFromTime_largest: "DayFromYear y \<le> Day t \<longleftrightarrow> y \<le> YearFromTime t"
proof
  assume "y \<le> YearFromTime t"
  then have "DayFromYear y \<le> DayFromYear (YearFromTime t)" by (rule DayFromYear_mono)
  with YearFromTime_spec[of t] show "DayFromYear y \<le> Day t" by simp
next
  assume a: "DayFromYear y \<le> Day t"
  show "y \<le> YearFromTime t"
  proof (rule ccontr)
    assume "\<not> y \<le> YearFromTime t"
    then have "YearFromTime t + 1 \<le> y" by simp
    then have "DayFromYear (YearFromTime t + 1) \<le> DayFromYear y" by (rule DayFromYear_mono)
    with a YearFromTime_spec[of t] show False by simp
  qed
qed

lemma InLeapYear_cases: "InLeapYear t = 0 \<or> InLeapYear t = 1"
  by (simp add: InLeapYear_def)

lemma DayWithinYear_range: "0 \<le> DayWithinYear t \<and> DayWithinYear t < 365 + InLeapYear t"
proof -
  have "DaysInYear (YearFromTime t) = 365 + InLeapYear t"
    using DaysInYear_cases[of "YearFromTime t"] by (auto simp: InLeapYear_def)
  then show ?thesis
    using YearFromTime_spec[of t] DayFromYear_step[of "YearFromTime t"]
    by (simp add: DayWithinYear_def)
qed

lemma MonthFromTime_range: "0 \<le> MonthFromTime t \<and> MonthFromTime t \<le> 11"
  by (simp add: MonthFromTime_def Let_def)

lemma DateFromTime_range: "1 \<le> DateFromTime t \<and> DateFromTime t \<le> 31"
  using DayWithinYear_range[of t] InLeapYear_cases[of t]
  by (auto simp: DateFromTime_def MonthFromTime_def Let_def)


lemma Day_range: "valid_time t \<Longrightarrow> - 100000000 \<le> Day t \<and> Day t \<le> 100000000"
proof -
  assume "valid_time t"
  then have t: "- 8640000000000000 \<le> t" "t \<le> 8640000000000000"
    by (simp_all add: valid_time_def maxTime_def)
  have "(- 8640000000000000) div 86400000 \<le> t div (86400000::int)"
    using t(1) by (intro zdiv_mono1) simp_all
  moreover have "t div (86400000::int) \<le> 8640000000000000 div 86400000"
    using t(2) by (intro zdiv_mono1) simp_all
  ultimately show ?thesis by (simp add: Day_def msPerDay_def)
qed

lemma YearFromTime_range:
  assumes "valid_time t"
  shows "- 271821 \<le> YearFromTime t \<and> YearFromTime t \<le> 275760"
proof -
  have lo: "DayFromYear (- 271821) = - 100000109" by (simp add: DayFromYear_def)
  have hi: "DayFromYear 275761 = 100000110" by (simp add: DayFromYear_def)
  from Day_range[OF assms] lo have "DayFromYear (- 271821) \<le> Day t" by simp
  then have "- 271821 \<le> YearFromTime t" using YearFromTime_largest[of "- 271821" t] by blast
  moreover from Day_range[OF assms] hi have "\<not> DayFromYear 275761 \<le> Day t" by simp
  then have "\<not> 275761 \<le> YearFromTime t" using YearFromTime_largest[of 275761 t] by blast
  ultimately show ?thesis by simp
qed


lemma digit_chars:
  "digit_char 0 = CHR ''0''" "digit_char 1 = CHR ''1''" "digit_char 2 = CHR ''2''"
  "digit_char 3 = CHR ''3''" "digit_char 4 = CHR ''4''" "digit_char 5 = CHR ''5''"
  "digit_char 6 = CHR ''6''" "digit_char 7 = CHR ''7''" "digit_char 8 = CHR ''8''"
  "digit_char 9 = CHR ''9''"
  by code_simp+

lemma digit_char_in_digits: "d < 10 \<Longrightarrow> digit_char d \<in> set ''0123456789''"
proof -
  assume "d < 10"
  then have "d \<in> {0, 1, 2, 3, 4, 5, 6, 7, 8, 9}" by auto
  then show ?thesis using digit_chars(2) by (auto simp: digit_chars)
qed






lemma length_decimal: "n < 10 ^ k \<Longrightarrow> 0 < k \<Longrightarrow> length (decimal n) \<le> k"
proof (induction k arbitrary: n)
  case 0
  then show ?case by simp
next
  case (Suc k)
  show ?case
  proof (cases "n < 10")
    case True
    then show ?thesis by (simp add: decimal.simps[of n])
  next
    case False
    then have k: "0 < k" using Suc.prems(1) by (cases k) simp_all
    have "n div 10 < 10 ^ k" using Suc.prems(1) by (simp add: less_mult_imp_div_less mult.commute)
    from Suc.IH[OF this k] False show ?thesis by (simp add: decimal.simps[of n])
  qed
qed

lemma length_padded:
  assumes "0 \<le> n" and "n < 10 ^ w" and "0 < w"
  shows "length (ToZeroPaddedDecimalString n w) = w"
proof -
  have "nat n < 10 ^ w" using assms(1,2) by (simp add: nat_less_iff)
  from length_decimal[OF this assms(3)] show ?thesis
    by (simp add: ToZeroPaddedDecimalString_def Let_def)
qed

lemma decimal_digits: "set (decimal n) \<subseteq> set ''0123456789''"
proof (induction n rule: decimal.induct)
  case (1 n)
  show ?case
  proof (cases "n < 10")
    case True
    then show ?thesis using digit_char_in_digits[of n] by (simp add: decimal.simps[of n])
  next
    case False
    moreover have "digit_char (n mod 10) \<in> set ''0123456789''"
      by (rule digit_char_in_digits) simp
    ultimately show ?thesis using 1 by (simp add: decimal.simps[of n])
  qed
qed

lemma padded_digits: "set (ToZeroPaddedDecimalString n w) \<subseteq> set ''0123456789''"
  using decimal_digits[of "nat n"]
  by (auto simp: ToZeroPaddedDecimalString_def Let_def)






lemma length_padded_2: "0 \<le> n \<Longrightarrow> n < 100 \<Longrightarrow> length (ToZeroPaddedDecimalString n 2) = 2"
  by (rule length_padded) simp_all

lemma length_padded_3: "0 \<le> n \<Longrightarrow> n < 1000 \<Longrightarrow> length (ToZeroPaddedDecimalString n 3) = 3"
  by (rule length_padded) simp_all





lemma time_field_ranges:
  "0 \<le> HourFromTime t \<and> HourFromTime t < 100"
  "0 \<le> MinFromTime t \<and> MinFromTime t < 100"
  "0 \<le> SecFromTime t \<and> SecFromTime t < 100"
  "0 \<le> msFromTime t \<and> msFromTime t < 1000"
  "0 \<le> MonthFromTime t + 1 \<and> MonthFromTime t + 1 < 100"
  "0 \<le> DateFromTime t \<and> DateFromTime t < 100"
proof -
  have "HourFromTime t < 24" "MinFromTime t < 60" "SecFromTime t < 60"
    by (simp_all add: HourFromTime_def MinFromTime_def SecFromTime_def)
  then show "0 \<le> HourFromTime t \<and> HourFromTime t < 100"
    "0 \<le> MinFromTime t \<and> MinFromTime t < 100"
    "0 \<le> SecFromTime t \<and> SecFromTime t < 100"
    by (simp_all add: HourFromTime_def MinFromTime_def SecFromTime_def)
  show "0 \<le> msFromTime t \<and> msFromTime t < 1000" by (simp add: msFromTime_def)
  show "0 \<le> MonthFromTime t + 1 \<and> MonthFromTime t + 1 < 100"
    using MonthFromTime_range[of t] by simp
  show "0 \<le> DateFromTime t \<and> DateFromTime t < 100"
    using DateFromTime_range[of t] by simp
qed

lemma time_field_lengths:
  "length (ToZeroPaddedDecimalString (MonthFromTime t + 1) 2) = 2"
  "length (ToZeroPaddedDecimalString (DateFromTime t) 2) = 2"
  "length (ToZeroPaddedDecimalString (HourFromTime t) 2) = 2"
  "length (ToZeroPaddedDecimalString (MinFromTime t) 2) = 2"
  "length (ToZeroPaddedDecimalString (SecFromTime t) 2) = 2"
  "length (ToZeroPaddedDecimalString (msFromTime t) 3) = 3"
  using time_field_ranges[of t] by (simp_all add: length_padded_2 length_padded_3)


lemma year_string_format:
  assumes "- 999999 \<le> y" and "y \<le> 999999"
  shows "(length (year_string y) = 4 \<and> set (year_string y) \<subseteq> set ''0123456789'') \<or>
         (length (year_string y) = 7 \<and> hd (year_string y) \<in> {CHR ''+'', CHR ''-''} \<and>
          set (tl (year_string y)) \<subseteq> set ''0123456789'')"
proof -
  consider (four) "0 \<le> y \<and> y \<le> 9999" | (neg) "y < 0" | (big) "9999 < y" by linarith
  then show ?thesis
  proof cases
    case four
    then have "length (ToZeroPaddedDecimalString y 4) = 4" by (intro length_padded) simp_all
    with four show ?thesis using padded_digits[of y 4] by (simp add: year_string_def)
  next
    case neg
    then have "length (ToZeroPaddedDecimalString (- y) 6) = 6"
      using assms by (intro length_padded) simp_all
    with neg show ?thesis using padded_digits[of "- y" 6] by (simp add: year_string_def)
  next
    case big
    then have "length (ToZeroPaddedDecimalString y 6) = 6"
      using assms by (intro length_padded) simp_all
    with big show ?thesis using padded_digits[of y 6] by (simp add: year_string_def)
  qed
qed

text \<open>
  The Date Time String Format of ECMA-262, \<^verbatim>\<open>YYYY-MM-DDTHH:mm:ss.sssZ\<close>: an ISO 8601
  instant with three digits of milliseconds and the UTC designator \<^verbatim>\<open>Z\<close>, the year
  being four digits, or a sign and six digits.
\<close>

lemma iso_string_format:
  assumes "valid_time t"
  shows "\<exists>y mo d h mi s ms.
     iso_string t = y @ ''-'' @ mo @ ''-'' @ d @ ''T'' @ h @ '':'' @ mi @ '':'' @ s @ ''.'' @ ms @ ''Z'' \<and>
     ((length y = 4 \<and> set y \<subseteq> set ''0123456789'') \<or>
      (length y = 7 \<and> hd y \<in> {CHR ''+'', CHR ''-''} \<and> set (tl y) \<subseteq> set ''0123456789'')) \<and>
     length mo = 2 \<and> length d = 2 \<and> length h = 2 \<and> length mi = 2 \<and> length s = 2 \<and>
     length ms = 3 \<and> set (mo @ d @ h @ mi @ s @ ms) \<subseteq> set ''0123456789''"
proof -
  have y: "- 999999 \<le> YearFromTime t" "YearFromTime t \<le> 999999"
    using YearFromTime_range[OF assms] by simp_all
  have digits: "set (ToZeroPaddedDecimalString (MonthFromTime t + 1) 2 @
      ToZeroPaddedDecimalString (DateFromTime t) 2 @
      ToZeroPaddedDecimalString (HourFromTime t) 2 @
      ToZeroPaddedDecimalString (MinFromTime t) 2 @
      ToZeroPaddedDecimalString (SecFromTime t) 2 @
      ToZeroPaddedDecimalString (msFromTime t) 3) \<subseteq> set ''0123456789''"
    using padded_digits[of "MonthFromTime t + 1" 2] padded_digits[of "DateFromTime t" 2]
      padded_digits[of "HourFromTime t" 2] padded_digits[of "MinFromTime t" 2]
      padded_digits[of "SecFromTime t" 2] padded_digits[of "msFromTime t" 3]
    by (simp only: set_append Un_subset_iff)
  show ?thesis
    apply (rule exI[of _ "year_string (YearFromTime t)"])
    apply (rule exI[of _ "ToZeroPaddedDecimalString (MonthFromTime t + 1) 2"])
    apply (rule exI[of _ "ToZeroPaddedDecimalString (DateFromTime t) 2"])
    apply (rule exI[of _ "ToZeroPaddedDecimalString (HourFromTime t) 2"])
    apply (rule exI[of _ "ToZeroPaddedDecimalString (MinFromTime t) 2"])
    apply (rule exI[of _ "ToZeroPaddedDecimalString (SecFromTime t) 2"])
    apply (rule exI[of _ "ToZeroPaddedDecimalString (msFromTime t) 3"])
    apply (intro conjI)
             apply (simp add: iso_string_def)
            apply (rule year_string_format[OF y])
           apply (rule time_field_lengths)+
    apply (rule digits)
    done
qed

section \<open>Properties of the gap detector\<close>

lemma toISOString_TimeClip:
  "toISOString (TimeClip t) = (if valid_time t then Inr (iso_string t) else Inl RangeError)"
  by (simp add: toISOString_def TimeClip_def)

lemma gap_loop_None_iff:
  "gap_loop c xs = Inr None \<longleftrightarrow>
   (\<forall>i. Suc i < length xs \<longrightarrow> timestamp (xs ! Suc i) - timestamp (xs ! i) < thresholdMs c)"
proof (induction c xs rule: gap_loop.induct)
  case (1 c cur nxt rest)
  show ?case
  proof (cases "thresholdMs c \<le> timestamp nxt - timestamp cur")
    case True
    then have "gap_loop c (cur # nxt # rest) \<noteq> Inr None"
      by (simp add: toISOString_TimeClip)
    moreover have "\<not> (\<forall>i. Suc i < length (cur # nxt # rest) \<longrightarrow>
        timestamp ((cur # nxt # rest) ! Suc i) - timestamp ((cur # nxt # rest) ! i) < thresholdMs c)"
      using True by (auto intro!: exI[of _ 0])
    ultimately show ?thesis by blast
  next
    case False
    then have "gap_loop c (cur # nxt # rest) = gap_loop c (nxt # rest)" by simp
    moreover have "(\<forall>i. Suc i < length (cur # nxt # rest) \<longrightarrow>
        timestamp ((cur # nxt # rest) ! Suc i) - timestamp ((cur # nxt # rest) ! i) < thresholdMs c)
      \<longleftrightarrow> (\<forall>i. Suc i < length (nxt # rest) \<longrightarrow>
        timestamp ((nxt # rest) ! Suc i) - timestamp ((nxt # rest) ! i) < thresholdMs c)"
      (is "?L \<longleftrightarrow> ?R")
    proof
      assume l: ?L
      show ?R
      proof (intro allI impI)
        fix i assume "Suc i < length (nxt # rest)"
        then show "timestamp ((nxt # rest) ! Suc i) - timestamp ((nxt # rest) ! i) < thresholdMs c"
          using l[rule_format, of "Suc i"] by simp
      qed
    next
      assume r: ?R
      show ?L
      proof (intro allI impI)
        fix i assume i: "Suc i < length (cur # nxt # rest)"
        show "timestamp ((cur # nxt # rest) ! Suc i) - timestamp ((cur # nxt # rest) ! i) < thresholdMs c"
        proof (cases i)
          case 0
          then show ?thesis using False by simp
        next
          case (Suc k)
          then show ?thesis using r[rule_format, of k] i by simp
        qed
      qed
    qed
    ultimately show ?thesis using 1 False by simp
  qed
qed simp_all

lemma gap_loop_first:
  assumes "Suc i < length xs"
    and "thresholdMs c \<le> timestamp (xs ! Suc i) - timestamp (xs ! i)"
    and "\<forall>j<i. timestamp (xs ! Suc j) - timestamp (xs ! j) < thresholdMs c"
  shows "gap_loop c xs =
    (if valid_time (timestamp (xs ! i) + expected_interval_seconds c * 1000)
     then Inr (Some \<lparr>Alert.service = ParsedHeartbeat.service (xs ! i),
                     alert_at = iso_string (timestamp (xs ! i) + expected_interval_seconds c * 1000)\<rparr>)
     else Inl RangeError)"
  using assms
proof (induction i arbitrary: xs)
  case 0
  then obtain cur nxt rest where xs: "xs = cur # nxt # rest"
    by (cases xs; cases "tl xs") auto
  with 0 show ?case by (simp add: toISOString_TimeClip)
next
  case (Suc i)
  then obtain cur nxt rest where xs: "xs = cur # nxt # rest"
    by (cases xs; cases "tl xs") auto
  from Suc.prems(3) have "timestamp (xs ! Suc 0) - timestamp (xs ! 0) < thresholdMs c"
    by blast
  then have step: "gap_loop c xs = gap_loop c (nxt # rest)"
    using xs by simp
  have "gap_loop c (nxt # rest) =
    (if valid_time (timestamp ((nxt # rest) ! i) + expected_interval_seconds c * 1000)
     then Inr (Some \<lparr>Alert.service = ParsedHeartbeat.service ((nxt # rest) ! i),
                     alert_at = iso_string (timestamp ((nxt # rest) ! i) + expected_interval_seconds c * 1000)\<rparr>)
     else Inl RangeError)"
  proof (rule Suc.IH)
    show "Suc i < length (nxt # rest)" using Suc.prems(1) xs by simp
    show "thresholdMs c \<le> timestamp ((nxt # rest) ! Suc i) - timestamp ((nxt # rest) ! i)"
      using Suc.prems(2) xs by simp
    show "\<forall>j<i. timestamp ((nxt # rest) ! Suc j) - timestamp ((nxt # rest) ! j) < thresholdMs c"
    proof (intro allI impI)
      fix j assume "j < i"
      then have "Suc j < Suc i" by simp
      from Suc.prems(3)[rule_format, OF this] show
        "timestamp ((nxt # rest) ! Suc j) - timestamp ((nxt # rest) ! j) < thresholdMs c"
        using xs by simp
    qed
  qed
  with step show ?case using xs by simp
qed

lemma first_index:
  fixes P :: "nat \<Rightarrow> bool"
  assumes "P i"
  shows "\<exists>k\<le>i. P k \<and> (\<forall>j<k. \<not> P j)"
proof -
  let ?k = "LEAST k. P k"
  have "P ?k" using assms by (rule LeastI)
  moreover have "?k \<le> i" using assms by (rule Least_le)
  moreover have "\<forall>j<?k. \<not> P j" using not_less_Least by blast
  ultimately show ?thesis by blast
qed



lemma gap_loop_Some:
  assumes "gap_loop c xs = Inr (Some a)"
  shows "\<exists>i. Suc i < length xs \<and>
     thresholdMs c \<le> timestamp (xs ! Suc i) - timestamp (xs ! i) \<and>
     (\<forall>j<i. timestamp (xs ! Suc j) - timestamp (xs ! j) < thresholdMs c) \<and>
     valid_time (timestamp (xs ! i) + expected_interval_seconds c * 1000) \<and>
     a = \<lparr>Alert.service = ParsedHeartbeat.service (xs ! i),
          alert_at = iso_string (timestamp (xs ! i) + expected_interval_seconds c * 1000)\<rparr>"
proof -
  from assms have "gap_loop c xs \<noteq> Inr None" by simp
  then obtain i0 where i0: "Suc i0 < length xs \<and>
      thresholdMs c \<le> timestamp (xs ! Suc i0) - timestamp (xs ! i0)"
    unfolding gap_loop_None_iff by (auto simp: not_less)
  from first_index[of "\<lambda>i. Suc i < length xs \<and>
      thresholdMs c \<le> timestamp (xs ! Suc i) - timestamp (xs ! i)", OF i0]
  obtain k where k: "k \<le> i0" "Suc k < length xs"
      "thresholdMs c \<le> timestamp (xs ! Suc k) - timestamp (xs ! k)"
      "\<forall>j<k. \<not> (Suc j < length xs \<and>
          thresholdMs c \<le> timestamp (xs ! Suc j) - timestamp (xs ! j))"
    by blast
  have before: "\<forall>j<k. timestamp (xs ! Suc j) - timestamp (xs ! j) < thresholdMs c"
  proof (intro allI impI)
    fix j assume "j < k"
    with k(2,4) show "timestamp (xs ! Suc j) - timestamp (xs ! j) < thresholdMs c"
      by (auto simp: not_le)
  qed
  from gap_loop_first[OF k(2,3) before] assms
  have "valid_time (timestamp (xs ! k) + expected_interval_seconds c * 1000) \<and>
     a = \<lparr>Alert.service = ParsedHeartbeat.service (xs ! k),
          alert_at = iso_string (timestamp (xs ! k) + expected_interval_seconds c * 1000)\<rparr>"
    by (auto split: if_splits)
  with k(2,3) before show ?thesis by blast
qed

subsection \<open>The claims about one service\<close>

text \<open>
  Claim C4. A group of no record or of one record yields no alert, whatever the
  configuration: the result is the value "none", never an exception.
\<close>

theorem detect_none_below_two_records:
  "length hs < 2 \<Longrightarrow> analyseServiceHeartbeats hs c = Inr None"
  by (simp add: analyseServiceHeartbeats_def)

theorem detect_none_below_two_records_witness:
  "length [\<lparr>ParsedHeartbeat.service = ''email'', timestamp = 1754301600000\<rparr>] < 2 \<and>
   analyseServiceHeartbeats [\<lparr>ParsedHeartbeat.service = ''email'', timestamp = 1754301600000\<rparr>]
     \<lparr>expected_interval_seconds = 60, allowed_misses = 3\<rparr> = Inr None \<and>
   analyseServiceHeartbeats [] \<lparr>expected_interval_seconds = - 5, allowed_misses = - 7\<rparr> = Inr None"
  using detect_none_below_two_records
          [of "[\<lparr>ParsedHeartbeat.service = ''email'', timestamp = 1754301600000\<rparr>]"
              "\<lparr>expected_interval_seconds = 60, allowed_misses = 3\<rparr>"]
        detect_none_below_two_records
          [of "[]" "\<lparr>expected_interval_seconds = - 5, allowed_misses = - 7\<rparr>"]
  by simp









section \<open>Properties of the grouper\<close>

lemma group_snoc:
  "groupHeartbeatsByService (hs @ [h]) = group_step (groupHeartbeatsByService hs) h"
  by (simp add: groupHeartbeatsByService_def)

lemma group_distinct: "distinct (map fst (groupHeartbeatsByService hs))"
proof (induction hs rule: rev_induct)
  case Nil
  show ?case by (simp add: groupHeartbeatsByService_def)
next
  case (snoc h hs)
  then show ?case
    by (simp add: group_snoc group_step_def Let_def AList.distinct_update)
qed

lemma group_lookup:
  "map_of (groupHeartbeatsByService hs) k =
     (if k \<in> ParsedHeartbeat.service ` set hs
      then Some (filter (\<lambda>h. ParsedHeartbeat.service h = k) hs) else None)"
proof (induction hs rule: rev_induct)
  case Nil
  show ?case by (simp add: groupHeartbeatsByService_def)
next
  case (snoc h hs)
  have ex: "(case map_of (groupHeartbeatsByService hs) k of Some v \<Rightarrow> v | None \<Rightarrow> [])
      = filter (\<lambda>x. ParsedHeartbeat.service x = k) hs"
  proof (cases "k \<in> ParsedHeartbeat.service ` set hs")
    case True
    then show ?thesis using snoc by simp
  next
    case False
    then have "filter (\<lambda>x. ParsedHeartbeat.service x = k) hs = []"
      by (auto simp: filter_empty_conv)
    with False show ?thesis using snoc by simp
  qed
  show ?case
  proof (cases "ParsedHeartbeat.service h = k")
    case True
    then show ?thesis
      using ex by (simp add: group_snoc group_step_def Let_def AList.update_conv')
  next
    case False
    then show ?thesis
      using snoc by (auto simp: group_snoc group_step_def Let_def AList.update_conv')
  qed
qed

lemma group_keys: "set (map fst (groupHeartbeatsByService hs)) = ParsedHeartbeat.service ` set hs"
proof -
  have "fst ` set (groupHeartbeatsByService hs) = dom (map_of (groupHeartbeatsByService hs))"
    by (simp add: dom_map_of_conv_image_fst)
  also have "\<dots> = ParsedHeartbeat.service ` set hs"
    by (auto simp: group_lookup dom_def split: if_splits)
  finally show ?thesis by simp
qed

lemma group_entry:
  "(k, v) \<in> set (groupHeartbeatsByService hs) \<longleftrightarrow>
     k \<in> ParsedHeartbeat.service ` set hs \<and> v = filter (\<lambda>h. ParsedHeartbeat.service h = k) hs"
proof -
  have "(k, v) \<in> set (groupHeartbeatsByService hs) \<longleftrightarrow>
      map_of (groupHeartbeatsByService hs) k = Some v"
    using group_distinct[of hs] by simp
  then show ?thesis by (auto simp: group_lookup)
qed

lemma alist_by_keys:
  "distinct (map fst g) \<Longrightarrow> g = map (\<lambda>k. (k, the (map_of g k))) (map fst g)"
proof (induction g)
  case Nil
  show ?case by simp
next
  case (Cons p g)
  obtain k0 v0 where p: "p = (k0, v0)" by (cases p)
  from Cons.prems p have notin: "k0 \<notin> set (map fst g)" and dist: "distinct (map fst g)"
    by simp_all
  have "map (\<lambda>k. (k, the (map_of (p # g) k))) (map fst g)
      = map (\<lambda>k. (k, the (map_of g k))) (map fst g)"
  proof (rule map_cong[OF refl])
    fix k assume "k \<in> set (map fst g)"
    with notin have "k \<noteq> k0" by blast
    then show "(k, the (map_of (p # g) k)) = (k, the (map_of g k))" by (simp add: p)
  qed
  also have "\<dots> = g" using Cons.IH[OF dist] by simp
  finally show ?case by (simp add: p)
qed

lemma group_by_keys:
  "groupHeartbeatsByService hs =
     map (\<lambda>k. (k, filter (\<lambda>h. ParsedHeartbeat.service h = k) hs))
       (map fst (groupHeartbeatsByService hs))"
proof -
  have "map (\<lambda>k. (k, the (map_of (groupHeartbeatsByService hs) k)))
          (map fst (groupHeartbeatsByService hs))
      = map (\<lambda>k. (k, filter (\<lambda>h. ParsedHeartbeat.service h = k) hs))
          (map fst (groupHeartbeatsByService hs))"
    by (intro map_cong refl) (auto simp: group_lookup group_keys[symmetric])
  with alist_by_keys[OF group_distinct[of hs]] show ?thesis by simp
qed

lemma mset_concat_update_snoc:
  "mset (concat (map snd (AList.update k
       ((case map_of al k of Some v \<Rightarrow> v | None \<Rightarrow> []) @ [h]) al)))
     = mset (concat (map snd al)) + {#h#}"
  by (induction al) auto

lemma group_mset: "mset (concat (map snd (groupHeartbeatsByService hs))) = mset hs"
proof (induction hs rule: rev_induct)
  case Nil
  show ?case by (simp add: groupHeartbeatsByService_def)
next
  case (snoc h hs)
  then show ?case
    by (simp add: group_snoc group_step_def Let_def mset_concat_update_snoc)
qed

text \<open>
  Claim C7. \<^verbatim>\<open>groupHeartbeatsByService\<close> yields a mapping (its keys are distinct) from
  service to the records of that service: no record is dropped or duplicated (the groups
  together are the input, as multisets), the group of a key is the nonempty list of the
  input records whose service is that very string, in input order, and two input records
  lie in one group exactly when their service strings are equal. Strings that differ in
  case only are different keys (see the witness).
\<close>

theorem grouping_partitions_by_exact_service:
  "distinct (map fst (groupHeartbeatsByService hs)) \<and>
   mset (concat (map snd (groupHeartbeatsByService hs))) = mset hs \<and>
   (\<forall>k v. (k, v) \<in> set (groupHeartbeatsByService hs) \<longrightarrow>
      v \<noteq> [] \<and> v = filter (\<lambda>h. ParsedHeartbeat.service h = k) hs) \<and>
   (\<forall>h\<in>set hs. \<forall>h'\<in>set hs.
      (\<exists>k v. (k, v) \<in> set (groupHeartbeatsByService hs) \<and> h \<in> set v \<and> h' \<in> set v)
        \<longleftrightarrow> ParsedHeartbeat.service h = ParsedHeartbeat.service h')"
proof (intro conjI)
  show "distinct (map fst (groupHeartbeatsByService hs))" by (rule group_distinct)
  show "mset (concat (map snd (groupHeartbeatsByService hs))) = mset hs" by (rule group_mset)
  show "\<forall>k v. (k, v) \<in> set (groupHeartbeatsByService hs) \<longrightarrow>
      v \<noteq> [] \<and> v = filter (\<lambda>h. ParsedHeartbeat.service h = k) hs"
    by (auto simp: group_entry filter_empty_conv)
  show "\<forall>h\<in>set hs. \<forall>h'\<in>set hs.
      (\<exists>k v. (k, v) \<in> set (groupHeartbeatsByService hs) \<and> h \<in> set v \<and> h' \<in> set v)
        \<longleftrightarrow> ParsedHeartbeat.service h = ParsedHeartbeat.service h'"
  proof (intro ballI iffI)
    fix h h' assume "h \<in> set hs" "h' \<in> set hs"
      and "\<exists>k v. (k, v) \<in> set (groupHeartbeatsByService hs) \<and> h \<in> set v \<and> h' \<in> set v"
    then show "ParsedHeartbeat.service h = ParsedHeartbeat.service h'"
      by (auto simp: group_entry)
  next
    fix h h' assume h: "h \<in> set hs" "h' \<in> set hs"
      and eq: "ParsedHeartbeat.service h = ParsedHeartbeat.service h'"
    let ?k = "ParsedHeartbeat.service h"
    let ?v = "filter (\<lambda>x. ParsedHeartbeat.service x = ?k) hs"
    have "(?k, ?v) \<in> set (groupHeartbeatsByService hs)" using h(1) by (simp add: group_entry)
    moreover have "h \<in> set ?v" "h' \<in> set ?v" using h eq by simp_all
    ultimately show "\<exists>k v. (k, v) \<in> set (groupHeartbeatsByService hs) \<and> h \<in> set v \<and> h' \<in> set v"
      by blast
  qed
qed

theorem grouping_partitions_by_exact_service_witness:
  "groupHeartbeatsByService
     [\<lparr>ParsedHeartbeat.service = ''email'', timestamp = 0\<rparr>,
      \<lparr>ParsedHeartbeat.service = ''Email'', timestamp = 0\<rparr>,
      \<lparr>ParsedHeartbeat.service = ''email'', timestamp = 60000\<rparr>]
   = [(''email'', [\<lparr>ParsedHeartbeat.service = ''email'', timestamp = 0\<rparr>,
                   \<lparr>ParsedHeartbeat.service = ''email'', timestamp = 60000\<rparr>]),
      (''Email'', [\<lparr>ParsedHeartbeat.service = ''Email'', timestamp = 0\<rparr>])] \<and>
   mset (concat (map snd (groupHeartbeatsByService
     [\<lparr>ParsedHeartbeat.service = ''email'', timestamp = 0\<rparr>,
      \<lparr>ParsedHeartbeat.service = ''Email'', timestamp = 0\<rparr>,
      \<lparr>ParsedHeartbeat.service = ''email'', timestamp = 60000\<rparr>])))
   = mset [\<lparr>ParsedHeartbeat.service = ''email'', timestamp = 0\<rparr>,
      \<lparr>ParsedHeartbeat.service = ''Email'', timestamp = 0\<rparr>,
      \<lparr>ParsedHeartbeat.service = ''email'', timestamp = 60000\<rparr>] \<and>
   \<not> (\<exists>k v. (k, v) \<in> set (groupHeartbeatsByService
     [\<lparr>ParsedHeartbeat.service = ''email'', timestamp = 0\<rparr>,
      \<lparr>ParsedHeartbeat.service = ''Email'', timestamp = 0\<rparr>,
      \<lparr>ParsedHeartbeat.service = ''email'', timestamp = 60000\<rparr>]) \<and>
      \<lparr>ParsedHeartbeat.service = ''email'', timestamp = 0\<rparr> \<in> set v \<and>
      \<lparr>ParsedHeartbeat.service = ''Email'', timestamp = 0\<rparr> \<in> set v)"
proof -
  let ?a = "\<lparr>ParsedHeartbeat.service = ''email'', timestamp = 0\<rparr>"
  let ?b = "\<lparr>ParsedHeartbeat.service = ''Email'', timestamp = 0\<rparr>"
  let ?c = "\<lparr>ParsedHeartbeat.service = ''email'', timestamp = 60000\<rparr>"
  have g: "groupHeartbeatsByService [?a, ?b, ?c] = [(''email'', [?a, ?c]), (''Email'', [?b])]"
    by (simp add: groupHeartbeatsByService_def group_step_def)
  have ne: "ParsedHeartbeat.service ?a \<noteq> ParsedHeartbeat.service ?b" by simp
  have mem: "?a \<in> set [?a, ?b, ?c]" "?b \<in> set [?a, ?b, ?c]" by simp_all
  note part = grouping_partitions_by_exact_service[of "[?a, ?b, ?c]"]
  from part have m: "mset (concat (map snd (groupHeartbeatsByService [?a, ?b, ?c])))
      = mset [?a, ?b, ?c]" by blast
  from part mem ne have "\<not> (\<exists>k v. (k, v) \<in> set (groupHeartbeatsByService [?a, ?b, ?c])
      \<and> ?a \<in> set v \<and> ?b \<in> set v)" by blast
  with g m show ?thesis by blast
qed

section \<open>Properties of the batch operation\<close>

lemma js_error_unique: "(e::js_error) = RangeError"
  by (cases e)

lemma alerts_loop_eq:
  "alerts_loop c g acc =
     (if \<exists>p\<in>set g. analyseServiceHeartbeats (snd p) c = Inl RangeError then Inl RangeError
      else Inr (acc @ concat (map (\<lambda>p. case analyseServiceHeartbeats (snd p) c of
                                          Inr (Some a) \<Rightarrow> [a] | _ \<Rightarrow> []) g)))"
proof (induction g arbitrary: acc)
  case Nil
  show ?case by simp
next
  case (Cons p g)
  obtain k v where p: "p = (k, v)" by (cases p)
  show ?case
  proof (cases "analyseServiceHeartbeats v c")
    case (Inl e)
    then show ?thesis using js_error_unique[of e] by (simp add: p)
  next
    case (Inr r)
    then show ?thesis using Cons[of acc] Cons[of "acc @ [the r]"] by (cases r) (simp_all add: p)
  qed
qed

lemma analyse_Some_grounded:
  assumes "analyseServiceHeartbeats v c = Inr (Some a)"
  shows "\<exists>h\<in>set v. Alert.service a = ParsedHeartbeat.service h \<and>
     alert_at a = iso_string (timestamp h + expected_interval_seconds c * 1000) \<and>
     valid_time (timestamp h + expected_interval_seconds c * 1000)"
proof -
  have "\<not> length v < 2" using assms by (auto simp: analyseServiceHeartbeats_def)
  then have "gap_loop c (sort_key timestamp v) = Inr (Some a)"
    using assms by (simp add: analyseServiceHeartbeats_def)
  from gap_loop_Some[OF this] obtain i where i: "Suc i < length (sort_key timestamp v)"
    "valid_time (timestamp (sort_key timestamp v ! i) + expected_interval_seconds c * 1000)"
    "a = \<lparr>Alert.service = ParsedHeartbeat.service (sort_key timestamp v ! i),
          alert_at = iso_string (timestamp (sort_key timestamp v ! i)
             + expected_interval_seconds c * 1000)\<rparr>"
    by blast
  from i(1) have "sort_key timestamp v ! i \<in> set (sort_key timestamp v)"
    by (intro nth_mem) simp
  then have "sort_key timestamp v ! i \<in> set v" by simp
  with i(2,3) show ?thesis by (intro bexI[of _ "sort_key timestamp v ! i"]) simp_all
qed

lemma distinct_group_alerts:
  assumes "distinct (map fst g)"
    and "\<forall>p\<in>set g. \<forall>a\<in>set (F p). svc a = fst p"
    and "\<forall>p\<in>set g. length (F p) \<le> 1"
  shows "distinct (map svc (concat (map F g)))"
  using assms
proof (induction g)
  case Nil
  show ?case by simp
next
  case (Cons p g)
  have rest: "distinct (map svc (concat (map F g)))" using Cons by simp
  have sub: "set (map svc (concat (map F g))) \<subseteq> fst ` set g"
    using Cons.prems(2) by auto
  have one: "distinct (map svc (F p))"
  proof -
    have "length (map svc (F p)) \<le> 1" using Cons.prems(3) by simp
    then show ?thesis by (cases "map svc (F p)") (simp_all add: Suc_le_eq)
  qed
  have "set (map svc (F p)) \<subseteq> {fst p}" using Cons.prems(2) by auto
  moreover have "fst p \<notin> fst ` set g" using Cons.prems(1) by simp
  ultimately have "set (map svc (F p)) \<inter> set (map svc (concat (map F g))) = {}"
    using sub by blast
  with one rest show ?case by simp
qed

lemma analyseAll_Inr:
  assumes "analyseAllHeartbeats hs c = Inr as"
  shows "as = concat (map (\<lambda>p. case analyseServiceHeartbeats (snd p) c of
                                    Inr (Some a) \<Rightarrow> [a] | _ \<Rightarrow> [])
                 (groupHeartbeatsByService hs))"
  using assms unfolding analyseAllHeartbeats_def alerts_loop_eq
  by (simp split: if_splits)

lemma alert_of_group:
  assumes "analyseAllHeartbeats hs c = Inr as" and "a \<in> set as"
  shows "\<exists>k v. (k, v) \<in> set (groupHeartbeatsByService hs) \<and>
           analyseServiceHeartbeats v c = Inr (Some a)"
proof -
  from assms(2) obtain p where p: "p \<in> set (groupHeartbeatsByService hs)"
    "a \<in> set (case analyseServiceHeartbeats (snd p) c of Inr (Some a) \<Rightarrow> [a] | _ \<Rightarrow> [])"
    unfolding analyseAll_Inr[OF assms(1)] by auto
  from p(2) have "analyseServiceHeartbeats (snd p) c = Inr (Some a)"
    by (auto split: sum.splits option.splits)
  moreover have "(fst p, snd p) \<in> set (groupHeartbeatsByService hs)" using p(1) by simp
  ultimately show ?thesis by blast
qed

lemma distinct_map_filter_le_one:
  "distinct (map f xs) \<Longrightarrow> length (filter (\<lambda>x. f x = s) xs) \<le> 1"
proof (induction xs)
  case Nil
  show ?case by simp
next
  case (Cons x xs)
  show ?case
  proof (cases "f x = s")
    case True
    with Cons.prems have "\<forall>y\<in>set xs. f y \<noteq> s" by (metis distinct.simps(2) image_eqI list.simps(9) set_map)
    then have "filter (\<lambda>x. f x = s) xs = []" by (simp add: filter_empty_conv)
    with True show ?thesis by simp
  next
    case False
    with Cons show ?thesis by simp
  qed
qed

text \<open>
  Claim C6. The alerts that \<^verbatim>\<open>analyseAllHeartbeats\<close> returns have pairwise different
  services, each of them the service of an input record: the list holds at most one alert
  per service, and none for a service that is not in the input.
\<close>

theorem at_most_one_alert_per_service:
  assumes "analyseAllHeartbeats hs c = Inr as"
  shows "distinct (map Alert.service as) \<and>
         (\<forall>s. length (filter (\<lambda>a. Alert.service a = s) as) \<le> 1) \<and>
         set (map Alert.service as) \<subseteq> ParsedHeartbeat.service ` set hs"
proof (intro conjI)
  let ?F = "\<lambda>p. case analyseServiceHeartbeats (snd p) c of Inr (Some a) \<Rightarrow> [a] | _ \<Rightarrow> []"
  have svc: "\<forall>p\<in>set (groupHeartbeatsByService hs). \<forall>a\<in>set (?F p). Alert.service a = fst p"
  proof (intro ballI)
    fix p a assume p: "p \<in> set (groupHeartbeatsByService hs)" and a: "a \<in> set (?F p)"
    from a have "analyseServiceHeartbeats (snd p) c = Inr (Some a)"
      by (auto split: sum.splits option.splits)
    from analyse_Some_grounded[OF this] obtain h where
      h: "h \<in> set (snd p)" "Alert.service a = ParsedHeartbeat.service h" by blast
    from p have "snd p = filter (\<lambda>h. ParsedHeartbeat.service h = fst p) hs"
      using group_entry[of "fst p" "snd p" hs] by simp
    with h show "Alert.service a = fst p" by auto
  qed
  have len: "\<forall>p\<in>set (groupHeartbeatsByService hs). length (?F p) \<le> 1"
    by (auto split: sum.splits option.splits)
  show dist: "distinct (map Alert.service as)"
    unfolding analyseAll_Inr[OF assms]
    using group_distinct[of hs] svc len by (rule distinct_group_alerts)
  show "\<forall>s. length (filter (\<lambda>a. Alert.service a = s) as) \<le> 1"
    using dist by (intro allI distinct_map_filter_le_one)
  show "set (map Alert.service as) \<subseteq> ParsedHeartbeat.service ` set hs"
  proof
    fix s assume "s \<in> set (map Alert.service as)"
    then obtain a where a: "a \<in> set as" "s = Alert.service a" by auto
    from alert_of_group[OF assms a(1)] obtain k v where
      kv: "(k, v) \<in> set (groupHeartbeatsByService hs)"
          "analyseServiceHeartbeats v c = Inr (Some a)" by blast
    from analyse_Some_grounded[OF kv(2)] obtain h where
      h: "h \<in> set v" "Alert.service a = ParsedHeartbeat.service h" by blast
    from kv(1) h(1) have "h \<in> set hs" by (auto simp: group_entry)
    with h(2) a(2) show "s \<in> ParsedHeartbeat.service ` set hs" by auto
  qed
qed

theorem at_most_one_alert_per_service_witness:
  "analyseAllHeartbeats
     [\<lparr>ParsedHeartbeat.service = ''email'', timestamp = 1754301600000\<rparr>,
      \<lparr>ParsedHeartbeat.service = ''sms'', timestamp = 1754301600000\<rparr>,
      \<lparr>ParsedHeartbeat.service = ''email'', timestamp = 1754301900000\<rparr>,
      \<lparr>ParsedHeartbeat.service = ''sms'', timestamp = 1754301660000\<rparr>,
      \<lparr>ParsedHeartbeat.service = ''email'', timestamp = 1754302200000\<rparr>,
      \<lparr>ParsedHeartbeat.service = ''push'', timestamp = 1754301900000\<rparr>,
      \<lparr>ParsedHeartbeat.service = ''push'', timestamp = 1754301600000\<rparr>]
     \<lparr>expected_interval_seconds = 60, allowed_misses = 3\<rparr>
   = Inr [\<lparr>Alert.service = ''email'', alert_at = ''2025-08-04T10:01:00.000Z''\<rparr>,
          \<lparr>Alert.service = ''push'', alert_at = ''2025-08-04T10:01:00.000Z''\<rparr>] \<and>
   distinct (map Alert.service
         [\<lparr>Alert.service = ''email'', alert_at = ''2025-08-04T10:01:00.000Z''\<rparr>,
          \<lparr>Alert.service = ''push'', alert_at = ''2025-08-04T10:01:00.000Z''\<rparr>])"
proof -
  let ?hs = "[\<lparr>ParsedHeartbeat.service = ''email'', timestamp = 1754301600000\<rparr>,
      \<lparr>ParsedHeartbeat.service = ''sms'', timestamp = 1754301600000\<rparr>,
      \<lparr>ParsedHeartbeat.service = ''email'', timestamp = 1754301900000\<rparr>,
      \<lparr>ParsedHeartbeat.service = ''sms'', timestamp = 1754301660000\<rparr>,
      \<lparr>ParsedHeartbeat.service = ''email'', timestamp = 1754302200000\<rparr>,
      \<lparr>ParsedHeartbeat.service = ''push'', timestamp = 1754301900000\<rparr>,
      \<lparr>ParsedHeartbeat.service = ''push'', timestamp = 1754301600000\<rparr>]"
  let ?c = "\<lparr>expected_interval_seconds = 60, allowed_misses = 3\<rparr>"
  let ?as = "[\<lparr>Alert.service = ''email'', alert_at = ''2025-08-04T10:01:00.000Z''\<rparr>,
          \<lparr>Alert.service = ''push'', alert_at = ''2025-08-04T10:01:00.000Z''\<rparr>]"
  have run: "analyseAllHeartbeats ?hs ?c = Inr ?as" by code_simp
  from at_most_one_alert_per_service[OF run] have "distinct (map Alert.service ?as)" ..
  with run show ?thesis ..
qed

text \<open>
  Claim C10. Every alert of \<^verbatim>\<open>analyseAllHeartbeats\<close> is grounded in the input: there is
  an input record with the alert's service such that \<^verbatim>\<open>alert_at\<close> is the ISO string of
  that record's timestamp plus \<open>expected_interval_seconds\<close> seconds; and that string has
  the form \<^verbatim>\<open>YYYY-MM-DDTHH:mm:ss.sssZ\<close> (year of four digits, or a sign and six digits),
  an ISO 8601 UTC instant with three digits of milliseconds.
\<close>

theorem alerts_grounded_in_input:
  assumes "analyseAllHeartbeats hs c = Inr as"
  shows "\<forall>a\<in>set as. \<exists>h\<in>set hs.
     Alert.service a = ParsedHeartbeat.service h \<and>
     alert_at a = iso_string (timestamp h + expected_interval_seconds c * 1000) \<and>
     (\<exists>y mo d hh mi s ms.
        alert_at a = y @ ''-'' @ mo @ ''-'' @ d @ ''T'' @ hh @ '':'' @ mi @ '':'' @ s @ ''.'' @ ms @ ''Z'' \<and>
        ((length y = 4 \<and> set y \<subseteq> set ''0123456789'') \<or>
         (length y = 7 \<and> hd y \<in> {CHR ''+'', CHR ''-''} \<and> set (tl y) \<subseteq> set ''0123456789'')) \<and>
        length mo = 2 \<and> length d = 2 \<and> length hh = 2 \<and> length mi = 2 \<and> length s = 2 \<and>
        length ms = 3 \<and> set (mo @ d @ hh @ mi @ s @ ms) \<subseteq> set ''0123456789'')"
proof
  fix a assume "a \<in> set as"
  from alert_of_group[OF assms this] obtain k v where
    kv: "(k, v) \<in> set (groupHeartbeatsByService hs)"
        "analyseServiceHeartbeats v c = Inr (Some a)" by blast
  from analyse_Some_grounded[OF kv(2)] obtain h where
    h: "h \<in> set v" "Alert.service a = ParsedHeartbeat.service h"
       "alert_at a = iso_string (timestamp h + expected_interval_seconds c * 1000)"
       "valid_time (timestamp h + expected_interval_seconds c * 1000)" by blast
  from kv(1) h(1) have "h \<in> set hs" by (auto simp: group_entry)
  moreover note h(2,3)
  moreover from iso_string_format[OF h(4)] have
    "\<exists>y mo d hh mi s ms.
        alert_at a = y @ ''-'' @ mo @ ''-'' @ d @ ''T'' @ hh @ '':'' @ mi @ '':'' @ s @ ''.'' @ ms @ ''Z'' \<and>
        ((length y = 4 \<and> set y \<subseteq> set ''0123456789'') \<or>
         (length y = 7 \<and> hd y \<in> {CHR ''+'', CHR ''-''} \<and> set (tl y) \<subseteq> set ''0123456789'')) \<and>
        length mo = 2 \<and> length d = 2 \<and> length hh = 2 \<and> length mi = 2 \<and> length s = 2 \<and>
        length ms = 3 \<and> set (mo @ d @ hh @ mi @ s @ ms) \<subseteq> set ''0123456789''"
    unfolding h(3) .
  ultimately show "\<exists>h\<in>set hs.
     Alert.service a = ParsedHeartbeat.service h \<and>
     alert_at a = iso_string (timestamp h + expected_interval_seconds c * 1000) \<and>
     (\<exists>y mo d hh mi s ms.
        alert_at a = y @ ''-'' @ mo @ ''-'' @ d @ ''T'' @ hh @ '':'' @ mi @ '':'' @ s @ ''.'' @ ms @ ''Z'' \<and>
        ((length y = 4 \<and> set y \<subseteq> set ''0123456789'') \<or>
         (length y = 7 \<and> hd y \<in> {CHR ''+'', CHR ''-''} \<and> set (tl y) \<subseteq> set ''0123456789'')) \<and>
        length mo = 2 \<and> length d = 2 \<and> length hh = 2 \<and> length mi = 2 \<and> length s = 2 \<and>
        length ms = 3 \<and> set (mo @ d @ hh @ mi @ s @ ms) \<subseteq> set ''0123456789'')"
    by blast
qed

theorem alerts_grounded_in_input_witness:
  "analyseAllHeartbeats
     [\<lparr>ParsedHeartbeat.service = ''sms'', timestamp = 1754301600000\<rparr>,
      \<lparr>ParsedHeartbeat.service = ''email'', timestamp = 1754301960123\<rparr>,
      \<lparr>ParsedHeartbeat.service = ''sms'', timestamp = 1754301660000\<rparr>,
      \<lparr>ParsedHeartbeat.service = ''email'', timestamp = 1754301720123\<rparr>]
     \<lparr>expected_interval_seconds = 60, allowed_misses = 3\<rparr>
   = Inr [\<lparr>Alert.service = ''email'', alert_at = ''2025-08-04T10:03:00.123Z''\<rparr>] \<and>
   (\<exists>h\<in>set [\<lparr>ParsedHeartbeat.service = ''sms'', timestamp = 1754301600000\<rparr>,
      \<lparr>ParsedHeartbeat.service = ''email'', timestamp = 1754301960123\<rparr>,
      \<lparr>ParsedHeartbeat.service = ''sms'', timestamp = 1754301660000\<rparr>,
      \<lparr>ParsedHeartbeat.service = ''email'', timestamp = 1754301720123\<rparr>].
      ParsedHeartbeat.service h = ''email'' \<and>
      iso_string (timestamp h + 60 * 1000) = ''2025-08-04T10:03:00.123Z'')"
proof -
  let ?hs = "[\<lparr>ParsedHeartbeat.service = ''sms'', timestamp = 1754301600000\<rparr>,
      \<lparr>ParsedHeartbeat.service = ''email'', timestamp = 1754301960123\<rparr>,
      \<lparr>ParsedHeartbeat.service = ''sms'', timestamp = 1754301660000\<rparr>,
      \<lparr>ParsedHeartbeat.service = ''email'', timestamp = 1754301720123\<rparr>]"
  let ?c = "\<lparr>expected_interval_seconds = 60, allowed_misses = 3\<rparr>"
  let ?a = "\<lparr>Alert.service = ''email'', alert_at = ''2025-08-04T10:03:00.123Z''\<rparr>"
  have run: "analyseAllHeartbeats ?hs ?c = Inr [?a]" by code_simp
  have "?a \<in> set [?a]" by simp
  with alerts_grounded_in_input[OF run] obtain h where
    "h \<in> set ?hs" "Alert.service ?a = ParsedHeartbeat.service h"
    "alert_at ?a = iso_string (timestamp h + expected_interval_seconds ?c * 1000)"
    by blast
  then have "\<exists>h\<in>set ?hs. ParsedHeartbeat.service h = ''email'' \<and>
      iso_string (timestamp h + 60 * 1000) = ''2025-08-04T10:03:00.123Z''"
    by (intro bexI[of _ h]) simp_all
  with run show ?thesis ..
qed

lemma analyse_permuted_group:
  assumes "mset v = mset v'" and "\<forall>h\<in>set v. ParsedHeartbeat.service h = k"
  shows "analyseServiceHeartbeats v c = analyseServiceHeartbeats v' c"
proof -
  have "inj_on timestamp (set v)"
  proof (rule inj_onI)
    fix x y assume "x \<in> set v" "y \<in> set v" "timestamp x = timestamp y"
    with assms(2) show "x = y" by simp
  qed
  with assms(1) have "sort_key timestamp v = sort_key timestamp v'"
    by (rule sort_key_eq_sort_key)
  moreover have "length v = length v'" using assms(1) by (rule mset_eq_length)
  ultimately show ?thesis by (simp add: analyseServiceHeartbeats_def)
qed

lemma analyse_permuted_filter:
  assumes "mset hs = mset hs'"
  shows "analyseServiceHeartbeats (filter (\<lambda>h. ParsedHeartbeat.service h = k) hs) c
       = analyseServiceHeartbeats (filter (\<lambda>h. ParsedHeartbeat.service h = k) hs') c"
proof (rule analyse_permuted_group)
  show "mset (filter (\<lambda>h. ParsedHeartbeat.service h = k) hs)
      = mset (filter (\<lambda>h. ParsedHeartbeat.service h = k) hs')"
    using assms by simp
  show "\<forall>h\<in>set (filter (\<lambda>h. ParsedHeartbeat.service h = k) hs). ParsedHeartbeat.service h = k"
    by simp
qed

lemma group_keys_permuted:
  assumes "mset hs = mset hs'"
  shows "mset (map fst (groupHeartbeatsByService hs)) = mset (map fst (groupHeartbeatsByService hs'))"
proof -
  have "set hs = set hs'" using assms by (rule mset_eq_setD)
  then have "set (map fst (groupHeartbeatsByService hs)) = set (map fst (groupHeartbeatsByService hs'))"
    by (simp only: group_keys)
  then show ?thesis
    using group_distinct[of hs] group_distinct[of hs'] by (simp only: set_eq_iff_mset_eq_distinct)
qed

lemma mset_concat_map: "mset (concat (map H ks)) = sum_mset (image_mset (\<lambda>k. mset (H k)) (mset ks))"
  by (induction ks) simp_all

lemma analyseAll_by_keys:
  "analyseAllHeartbeats hs c =
     (if \<exists>k\<in>set (map fst (groupHeartbeatsByService hs)).
           analyseServiceHeartbeats (filter (\<lambda>h. ParsedHeartbeat.service h = k) hs) c
             = Inl RangeError
      then Inl RangeError
      else Inr (concat (map
         (\<lambda>k. case analyseServiceHeartbeats (filter (\<lambda>h. ParsedHeartbeat.service h = k) hs) c of
                 Inr (Some a) \<Rightarrow> [a] | _ \<Rightarrow> [])
         (map fst (groupHeartbeatsByService hs)))))"
proof -
  let ?g = "groupHeartbeatsByService hs"
  let ?f = "\<lambda>k. (k, filter (\<lambda>h. ParsedHeartbeat.service h = k) hs)"
  have g: "?g = map ?f (map fst ?g)" by (rule group_by_keys)
  have 1: "(\<exists>p\<in>set ?g. analyseServiceHeartbeats (snd p) c = Inl RangeError) \<longleftrightarrow>
      (\<exists>k\<in>set (map fst ?g).
           analyseServiceHeartbeats (filter (\<lambda>h. ParsedHeartbeat.service h = k) hs) c
             = Inl RangeError)"
  proof
    assume "\<exists>p\<in>set ?g. analyseServiceHeartbeats (snd p) c = Inl RangeError"
    then obtain k v where kv: "(k, v) \<in> set ?g" "analyseServiceHeartbeats v c = Inl RangeError"
      by auto
    from kv(1) have "k \<in> set (map fst ?g)" by force
    moreover from kv(1) have "v = filter (\<lambda>h. ParsedHeartbeat.service h = k) hs"
      by (simp add: group_entry)
    ultimately show "\<exists>k\<in>set (map fst ?g).
           analyseServiceHeartbeats (filter (\<lambda>h. ParsedHeartbeat.service h = k) hs) c
             = Inl RangeError"
      using kv(2) by blast
  next
    assume "\<exists>k\<in>set (map fst ?g).
           analyseServiceHeartbeats (filter (\<lambda>h. ParsedHeartbeat.service h = k) hs) c
             = Inl RangeError"
    then obtain k where k: "k \<in> set (map fst ?g)"
      "analyseServiceHeartbeats (filter (\<lambda>h. ParsedHeartbeat.service h = k) hs) c = Inl RangeError"
      by blast
    from k(1) have "(k, filter (\<lambda>h. ParsedHeartbeat.service h = k) hs) \<in> set ?g"
      unfolding group_keys by (simp add: group_entry)
    with k(2) show "\<exists>p\<in>set ?g. analyseServiceHeartbeats (snd p) c = Inl RangeError"
      by force
  qed
  have 2: "map (\<lambda>p. case analyseServiceHeartbeats (snd p) c of Inr (Some a) \<Rightarrow> [a] | _ \<Rightarrow> []) ?g
      = map (\<lambda>k. case analyseServiceHeartbeats (filter (\<lambda>h. ParsedHeartbeat.service h = k) hs) c of
                 Inr (Some a) \<Rightarrow> [a] | _ \<Rightarrow> []) (map fst ?g)"
    by (subst g) (simp add: comp_def)
  show ?thesis
    unfolding analyseAllHeartbeats_def alerts_loop_eq 1 2 by simp
qed

text \<open>
  Claim C5. Reordering the input records does not change the alerts: on two lists with the
  same records (equal as multisets) \<^verbatim>\<open>analyseAllHeartbeats\<close> returns alert lists that are
  permutations of each other, hence equal as sets, or throws on both.
\<close>

theorem detection_independent_of_record_order:
  assumes "mset hs = mset hs'"
  shows "(\<exists>as bs. analyseAllHeartbeats hs c = Inr as \<and> analyseAllHeartbeats hs' c = Inr bs \<and>
            mset as = mset bs \<and> set as = set bs)
       \<or> (analyseAllHeartbeats hs c = Inl RangeError \<and> analyseAllHeartbeats hs' c = Inl RangeError)"
proof -
  let ?A = "\<lambda>hs k. analyseServiceHeartbeats (filter (\<lambda>h. ParsedHeartbeat.service h = k) hs) c"
  let ?H = "\<lambda>hs k. case ?A hs k of Inr (Some a) \<Rightarrow> [a] | _ \<Rightarrow> []"
  let ?ks = "map fst (groupHeartbeatsByService hs)"
  let ?ks' = "map fst (groupHeartbeatsByService hs')"
  have A: "?A hs k = ?A hs' k" for k using assms by (rule analyse_permuted_filter)
  have ks: "mset ?ks = mset ?ks'" using assms by (rule group_keys_permuted)
  then have sks: "set ?ks = set ?ks'" by (rule mset_eq_setD)
  show ?thesis
  proof (cases "\<exists>k\<in>set ?ks. ?A hs k = Inl RangeError")
    case True
    then obtain k where "k \<in> set ?ks" "?A hs k = Inl RangeError" by blast
    then have "k \<in> set ?ks'" "?A hs' k = Inl RangeError" using A[of k] sks by simp_all
    then have "\<exists>k\<in>set ?ks'. ?A hs' k = Inl RangeError" by blast
    with True show ?thesis
      by (simp only: analyseAll_by_keys[of hs c] analyseAll_by_keys[of hs' c] if_True simp_thms)
  next
    case False
    have F': "\<not> (\<exists>k\<in>set ?ks'. ?A hs' k = Inl RangeError)"
    proof
      assume "\<exists>k\<in>set ?ks'. ?A hs' k = Inl RangeError"
      then obtain k where "k \<in> set ?ks'" "?A hs' k = Inl RangeError" by blast
      then have "k \<in> set ?ks" "?A hs k = Inl RangeError" using A[of k] sks by simp_all
      with False show False by blast
    qed
    have r: "analyseAllHeartbeats hs c = Inr (concat (map (?H hs) ?ks))"
      using False by (simp only: analyseAll_by_keys[of hs c] if_False)
    have r': "analyseAllHeartbeats hs' c = Inr (concat (map (?H hs') ?ks'))"
      using F' by (simp only: analyseAll_by_keys[of hs' c] if_False)
    have "mset (concat (map (?H hs) ?ks)) = mset (concat (map (?H hs') ?ks'))"
      unfolding mset_concat_map ks using A by simp
    moreover from this have "set (concat (map (?H hs) ?ks)) = set (concat (map (?H hs') ?ks'))"
      by (rule mset_eq_setD)
    ultimately show ?thesis using r r' by blast
  qed
qed

theorem detection_independent_of_record_order_witness:
  "analyseAllHeartbeats
     [\<lparr>ParsedHeartbeat.service = ''email'', timestamp = 1754301600000\<rparr>,
      \<lparr>ParsedHeartbeat.service = ''email'', timestamp = 1754301900000\<rparr>,
      \<lparr>ParsedHeartbeat.service = ''push'', timestamp = 1754301600000\<rparr>,
      \<lparr>ParsedHeartbeat.service = ''push'', timestamp = 1754301960000\<rparr>]
     \<lparr>expected_interval_seconds = 60, allowed_misses = 3\<rparr>
   = Inr [\<lparr>Alert.service = ''email'', alert_at = ''2025-08-04T10:01:00.000Z''\<rparr>,
          \<lparr>Alert.service = ''push'', alert_at = ''2025-08-04T10:01:00.000Z''\<rparr>] \<and>
   analyseAllHeartbeats
     [\<lparr>ParsedHeartbeat.service = ''push'', timestamp = 1754301960000\<rparr>,
      \<lparr>ParsedHeartbeat.service = ''email'', timestamp = 1754301900000\<rparr>,
      \<lparr>ParsedHeartbeat.service = ''push'', timestamp = 1754301600000\<rparr>,
      \<lparr>ParsedHeartbeat.service = ''email'', timestamp = 1754301600000\<rparr>]
     \<lparr>expected_interval_seconds = 60, allowed_misses = 3\<rparr>
   = Inr [\<lparr>Alert.service = ''push'', alert_at = ''2025-08-04T10:01:00.000Z''\<rparr>,
          \<lparr>Alert.service = ''email'', alert_at = ''2025-08-04T10:01:00.000Z''\<rparr>] \<and>
   set [\<lparr>Alert.service = ''email'', alert_at = ''2025-08-04T10:01:00.000Z''\<rparr>,
        \<lparr>Alert.service = ''push'', alert_at = ''2025-08-04T10:01:00.000Z''\<rparr>]
   = set [\<lparr>Alert.service = ''push'', alert_at = ''2025-08-04T10:01:00.000Z''\<rparr>,
          \<lparr>Alert.service = ''email'', alert_at = ''2025-08-04T10:01:00.000Z''\<rparr>]"
proof -
  let ?e0 = "\<lparr>ParsedHeartbeat.service = ''email'', timestamp = 1754301600000\<rparr>"
  let ?e1 = "\<lparr>ParsedHeartbeat.service = ''email'', timestamp = 1754301900000\<rparr>"
  let ?p0 = "\<lparr>ParsedHeartbeat.service = ''push'', timestamp = 1754301600000\<rparr>"
  let ?p1 = "\<lparr>ParsedHeartbeat.service = ''push'', timestamp = 1754301960000\<rparr>"
  let ?c = "\<lparr>expected_interval_seconds = 60, allowed_misses = 3\<rparr>"
  let ?ae = "\<lparr>Alert.service = ''email'', alert_at = ''2025-08-04T10:01:00.000Z''\<rparr>"
  let ?ap = "\<lparr>Alert.service = ''push'', alert_at = ''2025-08-04T10:01:00.000Z''\<rparr>"
  have perm: "mset [?e0, ?e1, ?p0, ?p1] = mset [?p1, ?e1, ?p0, ?e0]" by simp
  have r1: "analyseAllHeartbeats [?e0, ?e1, ?p0, ?p1] ?c = Inr [?ae, ?ap]" by code_simp
  have r2: "analyseAllHeartbeats [?p1, ?e1, ?p0, ?e0] ?c = Inr [?ap, ?ae]" by code_simp
  from detection_independent_of_record_order[OF perm, of ?c]
  have "set [?ae, ?ap] = set [?ap, ?ae]" unfolding r1 r2 by simp
  with r1 r2 show ?thesis by blast
qed

section \<open>Properties of the validator\<close>

lemma trim_not_Nil_ends:
  assumes "trim s \<noteq> []"
  shows "\<not> is_whitespace (hd (trim s)) \<and> \<not> is_whitespace (last (trim s))"
proof -
  define u where "u = dropWhile is_whitespace s"
  define w where "w = dropWhile is_whitespace (rev u)"
  have t: "trim s = rev w" by (simp add: trim_def u_def w_def)
  with assms have w: "w \<noteq> []" by simp
  then have "\<not> is_whitespace (hd w)" unfolding w_def by (rule hd_dropWhile)
  then have l: "\<not> is_whitespace (last (trim s))" using w by (simp add: t last_rev)
  have u: "u \<noteq> []"
  proof
    assume "u = []"
    then have "w = []" by (simp add: w_def)
    with w show False by simp
  qed
  have "rev u = takeWhile is_whitespace (rev u) @ w" by (simp add: w_def)
  then have "last (rev u) = last (takeWhile is_whitespace (rev u) @ w)" by simp
  also have "\<dots> = last w" using w by (rule last_appendR)
  finally have "hd u = last w" using u by (simp add: last_rev)
  moreover have "\<not> is_whitespace (hd u)"
  proof -
    have "dropWhile is_whitespace s \<noteq> []" using u by (simp add: u_def)
    then have "\<not> is_whitespace (hd (dropWhile is_whitespace s))" by (rule hd_dropWhile)
    then show ?thesis by (simp add: u_def)
  qed
  ultimately have "\<not> is_whitespace (hd (trim s))" using w by (simp add: t hd_rev)
  with l show ?thesis by simp
qed

lemma trim_Nil: "trim [] = []"
  by (simp add: trim_def)

lemma trim_idem: "trim (trim s) = trim s"
proof (cases "trim s = []")
  case True
  then show ?thesis by (simp add: trim_Nil)
next
  case False
  from trim_not_Nil_ends[OF False] have h: "\<not> is_whitespace (hd (trim s))"
    and l: "\<not> is_whitespace (last (trim s))" by simp_all
  have 1: "dropWhile is_whitespace (trim s) = trim s"
    using h by (simp add: dropWhile_eq_self_iff)
  have "hd (rev (trim s)) = last (trim s)" using False by (simp add: hd_rev)
  then have 2: "dropWhile is_whitespace (rev (trim s)) = rev (trim s)"
    using l by (simp add: dropWhile_eq_self_iff)
  show ?thesis
    by (subst trim_def) (simp only: 1 2 rev_rev_ident)
qed

lemma hasRequiredFields_iff:
  "hasRequiredFields e \<longleftrightarrow> has_property ''service'' e \<and> has_property ''timestamp'' e"
  by (cases e) (simp_all add: hasRequiredFields_def)

lemma new_Date_valid: "new_Date date_parse s = Some t \<Longrightarrow> valid_time t"
  by (auto simp: new_Date_def TimeClip_def split: option.splits if_splits)

lemma parseEvent_None_iff:
  "parseEvent date_parse e = None \<longleftrightarrow>
     \<not> has_property ''service'' e \<or> \<not> has_property ''timestamp'' e \<or>
     (\<forall>s. get_property e ''service'' \<noteq> JString s) \<or>
     (\<exists>s. get_property e ''service'' = JString s \<and> trim s = []) \<or>
     (\<forall>ts. get_property e ''timestamp'' \<noteq> JString ts) \<or>
     (\<exists>ts. get_property e ''timestamp'' = JString ts \<and> new_Date date_parse ts = None)"
proof (cases "hasRequiredFields e")
  case False
  then show ?thesis by (auto simp: parseEvent_def hasRequiredFields_iff)
next
  case True
  note req = True
  show ?thesis
  proof (cases "get_property e ''service''")
    case (JString s)
    note svc = JString
    show ?thesis
    proof (cases "get_property e ''timestamp''")
      case (JString ts)
      then show ?thesis
        using req svc
        by (auto simp: parseEvent_def hasRequiredFields_iff split: option.splits)
    qed (use req svc in \<open>auto simp: parseEvent_def hasRequiredFields_iff\<close>)
  qed (use req in \<open>auto simp: parseEvent_def hasRequiredFields_iff\<close>)
qed

lemma parseEvent_Some:
  assumes "parseEvent date_parse e = Some p"
  shows "\<exists>s ts t. get_property e ''service'' = JString s \<and> trim s \<noteq> [] \<and>
     get_property e ''timestamp'' = JString ts \<and> new_Date date_parse ts = Some t \<and>
     p = \<lparr>ParsedHeartbeat.service = trim s, timestamp = t\<rparr>"
proof -
  from assms have req: "hasRequiredFields e" and
    svc: "isValidService (get_property e ''service'')"
    by (auto simp: parseEvent_def split: if_splits)
  from svc obtain s where s: "get_property e ''service'' = JString s" "trim s \<noteq> []"
    by (cases "get_property e ''service''") auto
  from assms req svc obtain t where
    t: "parseTimestamp date_parse (get_property e ''timestamp'') = Some t"
       "p = \<lparr>ParsedHeartbeat.service = trim s, timestamp = t\<rparr>"
    by (auto simp: parseEvent_def s split: option.splits)
  from t(1) obtain ts where "get_property e ''timestamp'' = JString ts"
      "new_Date date_parse ts = Some t"
    by (cases "get_property e ''timestamp''") auto
  with s t(2) show ?thesis by blast
qed

lemma validate_loop_eq:
  "validate_loop date_parse events acc =
     \<lparr>valid = valid acc @ List.map_filter (parseEvent date_parse) events,
      invalid = invalid acc + length (filter (\<lambda>e. parseEvent date_parse e = None) events)\<rparr>"
proof (induction events arbitrary: acc)
  case Nil
  show ?case by simp
next
  case (Cons e events)
  show ?case
    by (cases "parseEvent date_parse e") (simp_all add: Cons)
qed

text \<open>
  Claim C8. \<^verbatim>\<open>validateAndParseEvents\<close> partitions its input: the number of valid
  records plus the invalid count is the number of events. An event is invalid (it has no
  parse) exactly when it lacks the \<^verbatim>\<open>service\<close> or the \<^verbatim>\<open>timestamp\<close> property, its service
  is not a string or trims to the empty string, or its timestamp is not a string or does
  not parse to a valid instant; the invalid count is the number of these events. Invalid
  events do not stop the loop: the valid records are the parses of all the other events
  of the input, in order. Every valid record has a nonempty, trimmed service and a valid
  timestamp.
\<close>

theorem validation_partitions_events:
  "length (valid (validateAndParseEvents date_parse events))
     + invalid (validateAndParseEvents date_parse events) = length events \<and>
   invalid (validateAndParseEvents date_parse events) =
     length (filter (\<lambda>e.
       \<not> has_property ''service'' e \<or> \<not> has_property ''timestamp'' e \<or>
       (\<forall>s. get_property e ''service'' \<noteq> JString s) \<or>
       (\<exists>s. get_property e ''service'' = JString s \<and> trim s = []) \<or>
       (\<forall>ts. get_property e ''timestamp'' \<noteq> JString ts) \<or>
       (\<exists>ts. get_property e ''timestamp'' = JString ts \<and> new_Date date_parse ts = None))
       events) \<and>
   valid (validateAndParseEvents date_parse events)
     = List.map_filter (parseEvent date_parse) events \<and>
   (\<forall>e. parseEvent date_parse e = None \<longleftrightarrow>
       \<not> has_property ''service'' e \<or> \<not> has_property ''timestamp'' e \<or>
       (\<forall>s. get_property e ''service'' \<noteq> JString s) \<or>
       (\<exists>s. get_property e ''service'' = JString s \<and> trim s = []) \<or>
       (\<forall>ts. get_property e ''timestamp'' \<noteq> JString ts) \<or>
       (\<exists>ts. get_property e ''timestamp'' = JString ts \<and> new_Date date_parse ts = None)) \<and>
   (\<forall>p\<in>set (valid (validateAndParseEvents date_parse events)).
       ParsedHeartbeat.service p \<noteq> [] \<and>
       trim (ParsedHeartbeat.service p) = ParsedHeartbeat.service p \<and>
       valid_time (timestamp p))"
proof (intro conjI)
  let ?r = "validateAndParseEvents date_parse events"
  have v: "valid ?r = List.map_filter (parseEvent date_parse) events"
    and i: "invalid ?r = length (filter (\<lambda>e. parseEvent date_parse e = None) events)"
    by (simp_all add: validateAndParseEvents_def validate_loop_eq)
  show "valid ?r = List.map_filter (parseEvent date_parse) events" by (rule v)
  show "invalid ?r = length (filter (\<lambda>e.
       \<not> has_property ''service'' e \<or> \<not> has_property ''timestamp'' e \<or>
       (\<forall>s. get_property e ''service'' \<noteq> JString s) \<or>
       (\<exists>s. get_property e ''service'' = JString s \<and> trim s = []) \<or>
       (\<forall>ts. get_property e ''timestamp'' \<noteq> JString ts) \<or>
       (\<exists>ts. get_property e ''timestamp'' = JString ts \<and> new_Date date_parse ts = None))
       events)"
    unfolding i by (simp only: parseEvent_None_iff)
  show "\<forall>e. parseEvent date_parse e = None \<longleftrightarrow>
       \<not> has_property ''service'' e \<or> \<not> has_property ''timestamp'' e \<or>
       (\<forall>s. get_property e ''service'' \<noteq> JString s) \<or>
       (\<exists>s. get_property e ''service'' = JString s \<and> trim s = []) \<or>
       (\<forall>ts. get_property e ''timestamp'' \<noteq> JString ts) \<or>
       (\<exists>ts. get_property e ''timestamp'' = JString ts \<and> new_Date date_parse ts = None)"
    by (intro allI parseEvent_None_iff)
  have "length (List.map_filter (parseEvent date_parse) events)
      = length (filter (\<lambda>e. parseEvent date_parse e \<noteq> None) events)"
    by (simp add: List.map_filter_def)
  then show "length (valid ?r) + invalid ?r = length events"
    unfolding v i using sum_length_filter_compl[of "\<lambda>e. parseEvent date_parse e \<noteq> None" events]
    by simp
  show "\<forall>p\<in>set (valid ?r). ParsedHeartbeat.service p \<noteq> [] \<and>
       trim (ParsedHeartbeat.service p) = ParsedHeartbeat.service p \<and> valid_time (timestamp p)"
  proof
    fix p assume "p \<in> set (valid ?r)"
    then obtain e where "parseEvent date_parse e = Some p"
      unfolding v by (auto simp: List.map_filter_def)
    from parseEvent_Some[OF this] obtain s ts t where
      "trim s \<noteq> []" "new_Date date_parse ts = Some t"
      "p = \<lparr>ParsedHeartbeat.service = trim s, timestamp = t\<rparr>" by blast
    then show "ParsedHeartbeat.service p \<noteq> [] \<and>
       trim (ParsedHeartbeat.service p) = ParsedHeartbeat.service p \<and> valid_time (timestamp p)"
      using new_Date_valid[of date_parse ts t] by (simp add: trim_idem)
  qed
qed

theorem validation_partitions_events_witness:
  "validateAndParseEvents
     (\<lambda>s. if s = ''2025-08-04T10:00:00Z'' then Some 1754301600000 else None)
     [JNull, JUndefined, JString ''string'', JNumber 123,
      JObject [(''randomField'', JString ''value'')],
      JObject [(''service'', JString ''email'')],
      JObject [(''service'', JString ''   ''), (''timestamp'', JString ''2025-08-04T10:00:00Z'')],
      JObject [(''service'', JString ''sms''), (''timestamp'', JString ''not-a-real-timestamp'')],
      JObject [(''service'', JString ''  email  ''), (''timestamp'', JString ''2025-08-04T10:00:00Z'')],
      JObject [(''service'', JNumber 5), (''timestamp'', JString ''2025-08-04T10:00:00Z'')]]
   = \<lparr>valid = [\<lparr>ParsedHeartbeat.service = ''email'', timestamp = 1754301600000\<rparr>],
      invalid = 9\<rparr> \<and>
   length (valid (validateAndParseEvents
     (\<lambda>s. if s = ''2025-08-04T10:00:00Z'' then Some 1754301600000 else None)
     [JNull, JUndefined, JString ''string'', JNumber 123,
      JObject [(''randomField'', JString ''value'')],
      JObject [(''service'', JString ''email'')],
      JObject [(''service'', JString ''   ''), (''timestamp'', JString ''2025-08-04T10:00:00Z'')],
      JObject [(''service'', JString ''sms''), (''timestamp'', JString ''not-a-real-timestamp'')],
      JObject [(''service'', JString ''  email  ''), (''timestamp'', JString ''2025-08-04T10:00:00Z'')],
      JObject [(''service'', JNumber 5), (''timestamp'', JString ''2025-08-04T10:00:00Z'')]]))
   + invalid (validateAndParseEvents
     (\<lambda>s. if s = ''2025-08-04T10:00:00Z'' then Some 1754301600000 else None)
     [JNull, JUndefined, JString ''string'', JNumber 123,
      JObject [(''randomField'', JString ''value'')],
      JObject [(''service'', JString ''email'')],
      JObject [(''service'', JString ''   ''), (''timestamp'', JString ''2025-08-04T10:00:00Z'')],
      JObject [(''service'', JString ''sms''), (''timestamp'', JString ''not-a-real-timestamp'')],
      JObject [(''service'', JString ''  email  ''), (''timestamp'', JString ''2025-08-04T10:00:00Z'')],
      JObject [(''service'', JNumber 5), (''timestamp'', JString ''2025-08-04T10:00:00Z'')]])
   = 10"
proof -
  let ?dp = "\<lambda>s. if s = ''2025-08-04T10:00:00Z'' then Some (1754301600000::int) else None"
  let ?evs = "[JNull, JUndefined, JString ''string'', JNumber 123,
      JObject [(''randomField'', JString ''value'')],
      JObject [(''service'', JString ''email'')],
      JObject [(''service'', JString ''   ''), (''timestamp'', JString ''2025-08-04T10:00:00Z'')],
      JObject [(''service'', JString ''sms''), (''timestamp'', JString ''not-a-real-timestamp'')],
      JObject [(''service'', JString ''  email  ''), (''timestamp'', JString ''2025-08-04T10:00:00Z'')],
      JObject [(''service'', JNumber 5), (''timestamp'', JString ''2025-08-04T10:00:00Z'')]]"
  have run: "validateAndParseEvents ?dp ?evs
      = \<lparr>valid = [\<lparr>ParsedHeartbeat.service = ''email'', timestamp = 1754301600000\<rparr>],
         invalid = 9\<rparr>"
    by code_simp
  from validation_partitions_events[of ?dp ?evs]
  have "length (valid (validateAndParseEvents ?dp ?evs))
      + invalid (validateAndParseEvents ?dp ?evs) = length ?evs" by blast
  then have "length (valid (validateAndParseEvents ?dp ?evs))
      + invalid (validateAndParseEvents ?dp ?evs) = 10" by simp
  with run show ?thesis by blast
qed

section \<open>Properties of the entry point\<close>






end
